theory Spec2Isabelle
  imports Main
begin

section \<open>JSON values\<close>

text \<open>
  The collapse script (\<^verbatim>\<open>collapse-json-by-id.ts\<close>) works on parsed JSON:
  \<^verbatim>\<open>type JsonValue = JsonPrimitive | JsonValue[] | JsonObject\<close>.
  An object is kept as the list of its entries in the order \<^verbatim>\<open>Object.entries\<close>
  yields them (insertion order; keys that look like array indices, which JavaScript
  moves to the front, are outside this model). Numbers are the integers; the runtime's
  \<^verbatim>\<open>Date.parse\<close> and \<^verbatim>\<open>JSON.parse\<close> are parameters of the functions that
  call them. A property that is \<^verbatim>\<open>undefined\<close> is \<open>None\<close>.
\<close>

datatype json =
    JNull
  | JBool bool
  | JNum int
  | JStr string
  | JArr "json list"
  | JObj "(string \<times> json) list"

type_synonym jobject = "(string \<times> json) list"

datatype error = SyntaxError | ExpectedArrayOrNdjson | TypeError

fun isJsonObject :: "json \<Rightarrow> bool" where
  "isJsonObject (JObj es) = True"
| "isJsonObject v = False"


text \<open>
  \<^verbatim>\<open>obj[key]\<close> and \<^verbatim>\<open>obj[key] = value\<close> on own properties; \<^verbatim>\<open>key in obj\<close> holds
  when \<open>obj_get\<close> is not \<open>None\<close> (inherited properties such as \<^verbatim>\<open>toString\<close> are
  outside this model). An assignment to a new key adds it after the others.
\<close>

definition obj_get :: "(string \<times> 'v) list \<Rightarrow> string \<Rightarrow> 'v option" where
  "obj_get obj k = map_of obj k"

fun obj_set :: "(string \<times> 'v) list \<Rightarrow> string \<Rightarrow> 'v \<Rightarrow> (string \<times> 'v) list" where
  "obj_set [] k v = [(k, v)]"
| "obj_set ((k', v') # es) k v =
     (if k' = k then (k, v) # es else (k', v') # obj_set es k v)"

section \<open>Strings\<close>

text \<open>\<^verbatim>\<open>trim\<close> removes white space at both ends; the characters here are the ASCII ones.\<close>

definition isSpace :: "char \<Rightarrow> bool" where
  "isSpace c = (c \<in> set [CHR 0x20, CHR 0x09, CHR 0x0A, CHR 0x0B, CHR 0x0C, CHR 0x0D])"

definition trim :: "string \<Rightarrow> string" where
  "trim s = rev (dropWhile isSpace (rev (dropWhile isSpace s)))"

definition startsWith :: "string \<Rightarrow> string \<Rightarrow> bool" where
  "startsWith s p = (take (length p) s = p)"

text \<open>The relational operators of JavaScript on strings: code units, lexicographically.\<close>

fun str_less :: "string \<Rightarrow> string \<Rightarrow> bool" where
  "str_less [] [] = False"
| "str_less [] (y # ys) = True"
| "str_less (x # xs) [] = False"
| "str_less (x # xs) (y # ys) =
     ((of_char x :: nat) < of_char y \<or> (x = y \<and> str_less xs ys))"

fun join :: "string \<Rightarrow> string list \<Rightarrow> string" where
  "join sep [] = []"
| "join sep [x] = x"
| "join sep (x # y # ys) = x @ sep @ join sep (y # ys)"

text \<open>\<^verbatim>\<open>String(n)\<close> and \<^verbatim>\<open>JSON.stringify(n)\<close> of an integer: its decimal digits.\<close>

definition digitChar :: "nat \<Rightarrow> char" where
  "digitChar d = char_of (48 + d)"

fun showNat :: "nat \<Rightarrow> string" where
  "showNat n = (if n < 10 then [digitChar n] else showNat (n div 10) @ [digitChar (n mod 10)])"

declare showNat.simps [simp del]

definition showNum :: "int \<Rightarrow> string" where
  "showNum i = (if i < 0 then CHR ''-'' # showNat (nat (- i)) else showNat (nat i))"

text \<open>\<^verbatim>\<open>JSON.stringify(s)\<close> of a string: quoted, with the escapes of the standard.\<close>

definition hexChar :: "nat \<Rightarrow> char" where
  "hexChar d = (if d < 10 then char_of (48 + d) else char_of (87 + d))"

definition escapeChar :: "char \<Rightarrow> string" where
  "escapeChar c =
     (if c = CHR 0x22 then [CHR 0x5C, CHR 0x22]
      else if c = CHR 0x5C then [CHR 0x5C, CHR 0x5C]
      else if c = CHR 0x08 then [CHR 0x5C, CHR ''b'']
      else if c = CHR 0x0C then [CHR 0x5C, CHR ''f'']
      else if c = CHR 0x0A then [CHR 0x5C, CHR ''n'']
      else if c = CHR 0x0D then [CHR 0x5C, CHR ''r'']
      else if c = CHR 0x09 then [CHR 0x5C, CHR ''t'']
      else if (of_char c :: nat) < 32
        then [CHR 0x5C, CHR ''u'', CHR ''0'', CHR ''0'',
              hexChar (of_char c div 16), hexChar (of_char c mod 16)]
      else [c])"

definition jsonQuote :: "string \<Rightarrow> string" where
  "jsonQuote s = CHR 0x22 # concat (map escapeChar s) @ [CHR 0x22]"

section \<open>Stable serialisation and keys\<close>

text \<open>
  \<^verbatim>\<open>entries.sort(([keyA], [keyB]) => keyA.localeCompare(keyB))\<close>: a stable sort by key.
  The collation of \<^verbatim>\<open>localeCompare\<close> is taken to be the order of \<open>str_less\<close>. The
  serialisation is used as a key, where only its equality matters, and as the string form
  of a freshness value that is a list or an object.
\<close>

fun insertEntry :: "string \<times> 'v \<Rightarrow> (string \<times> 'v) list \<Rightarrow> (string \<times> 'v) list" where
  "insertEntry e [] = [e]"
| "insertEntry e (x # xs) =
     (if str_less (fst e) (fst x) then e # x # xs else x # insertEntry e xs)"

definition sortEntries :: "(string \<times> 'v) list \<Rightarrow> (string \<times> 'v) list" where
  "sortEntries es = foldr insertEntry es []"

text \<open>
  The sort looks at keys only, so the values are serialised first and the serialised
  entries sorted, which is the same string.
\<close>

fun stableStringify :: "json \<Rightarrow> string" where
  "stableStringify JNull = ''null''"
| "stableStringify (JBool b) = (if b then ''true'' else ''false'')"
| "stableStringify (JNum n) = showNum n"
| "stableStringify (JStr s) = jsonQuote s"
| "stableStringify (JArr xs) = ''['' @ join '','' (map stableStringify xs) @ '']''"
| "stableStringify (JObj es) =
     ''{'' @ join '',''
        (map (\<lambda>e. jsonQuote (fst e) @ '':'' @ snd e)
           (sortEntries (map (\<lambda>e. (fst e, stableStringify (snd e))) es))) @ ''}''"

fun buildIdKey :: "json \<Rightarrow> string" where
  "buildIdKey JNull = ''null''"
| "buildIdKey (JStr s) = s"
| "buildIdKey (JNum n) = showNum n"
| "buildIdKey (JBool b) = (if b then ''true'' else ''false'')"
| "buildIdKey v = stableStringify v"

fun isMeaninglessMetadata :: "json \<Rightarrow> bool" where
  "isMeaninglessMetadata JNull = True"
| "isMeaninglessMetadata (JStr s) = (length (trim s) = 0)"
| "isMeaninglessMetadata v = False"

fun isMeaningless :: "json \<Rightarrow> bool" where
  "isMeaningless JNull = True"
| "isMeaningless (JStr s) = (length (trim s) = 0)"
| "isMeaningless v = False"

definition isInternalKey :: "string \<Rightarrow> bool" where
  "isInternalKey key = startsWith key ''_dlt''"

text \<open>A deep copy; values are immutable here, so the copy is the value.\<close>

definition cloneJsonValue :: "json \<Rightarrow> json" where
  "cloneJsonValue v = v"

definition cloneJsonObject :: "jobject \<Rightarrow> jobject" where
  "cloneJsonObject obj = obj"

section \<open>Merging the values of one field\<close>

text \<open>
  \<^verbatim>\<open>addValue\<close> is the closure of \<^verbatim>\<open>mergeField\<close>; its state is the array
  \<^verbatim>\<open>values\<close> and the set \<^verbatim>\<open>seen\<close> of serialisations.
\<close>

definition addValue :: "json list \<times> string set \<Rightarrow> json \<Rightarrow> json list \<times> string set" where
  "addValue st value =
     (if isMeaningless value then st
      else let key = stableStringify value in
        if key \<notin> snd st then (fst st @ [cloneJsonValue value], insert key (snd st))
        else st)"

definition mergeField :: "json option \<Rightarrow> json \<Rightarrow> json" where
  "mergeField existing incoming =
     (let st0 = ([], {});
          st1 = (case existing of
                   None \<Rightarrow> st0
                 | Some (JArr xs) \<Rightarrow> foldl addValue st0 xs
                 | Some v \<Rightarrow> addValue st0 v);
          st2 = (case incoming of
                   JArr ys \<Rightarrow> foldl addValue st1 ys
                 | v \<Rightarrow> addValue st1 v);
          values = fst st2
      in if length values = 0
           then (case existing of None \<Rightarrow> JArr [] | Some JNull \<Rightarrow> JArr [] | Some e \<Rightarrow> e)
         else if length values = 1 then hd values
         else JArr values)"

section \<open>Repositories\<close>

fun entriesOf :: "json \<Rightarrow> jobject" where
  "entriesOf (JObj es) = es"
| "entriesOf v = []"

definition sanitizeRepositoryObject :: "jobject \<Rightarrow> jobject" where
  "sanitizeRepositoryObject value =
     foldl (\<lambda>sanitized (key, entry).
              if isInternalKey key then sanitized
              else obj_set sanitized key (cloneJsonValue entry)) [] value"

fun normalizeRepositoryCollection :: "json \<Rightarrow> jobject list" where
  "normalizeRepositoryCollection (JArr xs) =
     map (\<lambda>item. sanitizeRepositoryObject (entriesOf item)) (filter isJsonObject xs)"
| "normalizeRepositoryCollection (JObj es) = [sanitizeRepositoryObject es]"
| "normalizeRepositoryCollection v = []"

fun normalizeRepositoryValue :: "json \<Rightarrow> json list" where
  "normalizeRepositoryValue (JArr xs) = filter (\<lambda>item. \<not> isMeaningless item) xs"
| "normalizeRepositoryValue v = (if isMeaningless v then [] else [v])"

text \<open>
  \<^verbatim>\<open>values[index] ?? (values.length === 1 ? values[0] : undefined)\<close>: an index out of
  range reads \<^verbatim>\<open>undefined\<close>, and \<^verbatim>\<open>??\<close> passes over \<^verbatim>\<open>null\<close> too.
\<close>

definition pickRepositoryValue :: "json list \<Rightarrow> nat \<Rightarrow> json option" where
  "pickRepositoryValue values index =
     (if index < length values \<and> values ! index \<noteq> JNull then Some (values ! index)
      else if length values = 1 then Some (hd values)
      else None)"

definition normalizeRepoFields :: "jobject \<Rightarrow> (string \<times> json list) list \<times> nat" where
  "normalizeRepoFields repoFields =
     foldl (\<lambda>(normalized, maxLength) (key, value).
              let values = normalizeRepositoryValue value in
              if length values = 0 then (normalized, maxLength)
              else (obj_set normalized key values,
                    if length values > maxLength then length values else maxLength))
       ([], 0) repoFields"

definition buildRepositoryAt :: "(string \<times> json list) list \<Rightarrow> nat \<Rightarrow> jobject" where
  "buildRepositoryAt normalized index =
     foldl (\<lambda>repository (key, values).
              case pickRepositoryValue values index of
                None \<Rightarrow> repository
              | Some value \<Rightarrow> obj_set repository key (cloneJsonValue value)) [] normalized"

definition buildRepositoryObjects :: "jobject \<Rightarrow> jobject list" where
  "buildRepositoryObjects repoFields =
     (case normalizeRepoFields repoFields of (normalized, maxLength) \<Rightarrow>
        if maxLength = 0 then []
        else foldl (\<lambda>repositories index.
                      let repository = buildRepositoryAt normalized index in
                      if length repository > 0 then repositories @ [repository]
                      else repositories) [] [0..<maxLength])"

text \<open>The loop of \<^verbatim>\<open>extractRepositoryEntries\<close>, on (repoFields, repoObjects, otherEntries).\<close>

definition extractStep ::
  "jobject \<times> jobject list \<times> jobject \<Rightarrow> string \<times> json \<Rightarrow> jobject \<times> jobject list \<times> jobject" where
  "extractStep st e =
     (case st of (repoFields, repoObjects, otherEntries) \<Rightarrow>
      case e of (key, value) \<Rightarrow>
        if isInternalKey key then st
        else if key = ''repositories''
          then (repoFields, repoObjects @ normalizeRepositoryCollection value, otherEntries)
        else if startsWith key ''repo_''
          then (let trimmedKey = drop 5 key in
                if length trimmedKey > 0
                  then (obj_set repoFields trimmedKey value, repoObjects, otherEntries)
                else st)
        else (repoFields, repoObjects, otherEntries @ [(key, value)]))"

definition extractRepositoryEntries :: "jobject \<Rightarrow> jobject list \<times> jobject" where
  "extractRepositoryEntries record =
     (case foldl extractStep ([], [], []) record of (repoFields, repoObjects, otherEntries) \<Rightarrow>
        (repoObjects @ buildRepositoryObjects repoFields, otherEntries))"

definition keyFrom :: "jobject \<Rightarrow> string \<Rightarrow> string option" where
  "keyFrom repository field =
     (case obj_get repository field of
        Some (JStr s) \<Rightarrow> if length (trim s) > 0 then Some (trim s) else None
      | _ \<Rightarrow> None)"

definition buildRepositoryKey :: "jobject \<Rightarrow> string" where
  "buildRepositoryKey repository =
     (case keyFrom repository ''url'' of
        Some u \<Rightarrow> ''url:'' @ u
      | None \<Rightarrow>
     (case keyFrom repository ''id'' of
        Some i \<Rightarrow> ''id:'' @ i
      | None \<Rightarrow>
     (case keyFrom repository ''type'' of
        Some t \<Rightarrow> ''type:'' @ t
      | None \<Rightarrow> ''anon:'' @ stableStringify (JObj repository))))"

text \<open>\<^verbatim>\<open>upsert\<close>, the closure of \<^verbatim>\<open>mergeRepositories\<close>, on (byKey, order).\<close>

definition upsert ::
  "(string \<times> jobject) list \<times> string list \<Rightarrow> json \<Rightarrow> (string \<times> jobject) list \<times> string list" where
  "upsert st value =
     (if \<not> isJsonObject value then st
      else let sanitized = sanitizeRepositoryObject (entriesOf value) in
        if length sanitized = 0 then st
        else let key = buildRepositoryKey sanitized in
          case obj_get (fst st) key of
            None \<Rightarrow> (obj_set (fst st) key (cloneJsonObject sanitized), snd st @ [key])
          | Some existingRepo \<Rightarrow>
              (obj_set (fst st) key
                 (foldl (\<lambda>repo (field, entry).
                           obj_set repo field (mergeField (obj_get repo field) entry))
                    existingRepo sanitized),
               snd st))"

text \<open>
  Every key of \<^verbatim>\<open>order\<close> was stored in \<^verbatim>\<open>byKey\<close>, so \<^verbatim>\<open>byKey.get(key)!\<close> is
  defined for each of them.
\<close>

definition mergeRepositories :: "json option \<Rightarrow> jobject list \<Rightarrow> json" where
  "mergeRepositories existing incoming =
     (let st0 = ([], []);
          st1 = (case existing of
                   None \<Rightarrow> st0
                 | Some (JArr xs) \<Rightarrow> foldl upsert st0 xs
                 | Some v \<Rightarrow> upsert st0 v);
          st2 = foldl upsert st1 (map JObj incoming)
      in JArr (concat (map (\<lambda>key. case obj_get (fst st2) key of
                                     Some repo \<Rightarrow> [JObj (cloneJsonObject repo)]
                                   | None \<Rightarrow> []) (snd st2))))"

section \<open>Merging a group\<close>

definition mergeEntries :: "jobject \<Rightarrow> jobject \<Rightarrow> jobject" where
  "mergeEntries merged otherEntries =
     foldl (\<lambda>m (key, value). obj_set m key (mergeField (obj_get m key) value))
       merged otherEntries"

definition mergeGroupStep :: "jobject \<times> jobject list \<Rightarrow> jobject \<Rightarrow> jobject \<times> jobject list" where
  "mergeGroupStep st record =
     (case extractRepositoryEntries record of (repoEntries, otherEntries) \<Rightarrow>
        (mergeEntries (fst st) otherEntries, snd st @ repoEntries))"

definition mergeGroupRecords :: "jobject list \<Rightarrow> jobject" where
  "mergeGroupRecords recs =
     (case foldl mergeGroupStep ([], []) recs of (merged, repositoryAccumulator) \<Rightarrow>
        if length repositoryAccumulator > 0
          then obj_set merged ''repositories''
                 (mergeRepositories (obj_get merged ''repositories'') repositoryAccumulator)
        else merged)"

section \<open>Comparing freshness\<close>

text \<open>
  \<open>dateParse\<close> stands for \<^verbatim>\<open>Date.parse\<close>, with \<open>None\<close> for \<^verbatim>\<open>NaN\<close>. A number of
  this model is finite.
\<close>

fun toTimestamp :: "(string \<Rightarrow> int option) \<Rightarrow> json \<Rightarrow> int option" where
  "toTimestamp dateParse (JNum n) = Some n"
| "toTimestamp dateParse (JStr s) = dateParse s"
| "toTimestamp dateParse v = None"

fun toComparableString :: "json \<Rightarrow> string" where
  "toComparableString JNull = []"
| "toComparableString (JStr s) = s"
| "toComparableString (JNum n) = showNum n"
| "toComparableString (JBool b) = (if b then ''true'' else ''false'')"
| "toComparableString v = stableStringify v"

definition compareMetadata :: "(string \<Rightarrow> int option) \<Rightarrow> json \<Rightarrow> json \<Rightarrow> int" where
  "compareMetadata dateParse nextValue currentValue =
     (case (toTimestamp dateParse nextValue, toTimestamp dateParse currentValue) of
        (Some nextTimestamp, Some currentTimestamp) \<Rightarrow>
          if nextTimestamp \<noteq> currentTimestamp
            then (if nextTimestamp > currentTimestamp then 1 else - 1)
          else if toComparableString nextValue = toComparableString currentValue then 0
          else if str_less (toComparableString currentValue) (toComparableString nextValue)
            then 1 else - 1
      | _ \<Rightarrow>
          if toComparableString nextValue = toComparableString currentValue then 0
          else if str_less (toComparableString currentValue) (toComparableString nextValue)
            then 1 else - 1)"

section \<open>Collapsing records by identity\<close>

record id_group =
  metadata :: json
  records :: "jobject list"

record collapse_state =
  byId :: "(string \<times> id_group) list"
  st_missingId :: nat
  st_missingMetadata :: nat
  st_olderRecordsSkipped :: nat

record CollapseSummary =
  totalRecords :: int
  uniqueIds :: int
  usedRecords :: int
  mergedRecords :: int
  missingId :: int
  missingMetadata :: int
  olderRecordsSkipped :: int

text \<open>The body of the first loop of \<^verbatim>\<open>collapseRecords\<close>, for one record.\<close>

definition collapseStep ::
  "(string \<Rightarrow> int option) \<Rightarrow> string \<Rightarrow> string \<Rightarrow> collapse_state \<Rightarrow> json \<Rightarrow> collapse_state" where
  "collapseStep dateParse idField metadataField st rec =
     (case rec of
        JObj es \<Rightarrow>
          (case obj_get es idField of
             None \<Rightarrow> st\<lparr>st_missingId := st_missingId st + 1\<rparr>
           | Some idValue \<Rightarrow>
          (case obj_get es metadataField of
             None \<Rightarrow> st\<lparr>st_missingMetadata := st_missingMetadata st + 1\<rparr>
           | Some metadataValue \<Rightarrow>
               if isMeaninglessMetadata metadataValue
                 then st\<lparr>st_missingMetadata := st_missingMetadata st + 1\<rparr>
               else let idKey = buildIdKey idValue in
                 (case obj_get (byId st) idKey of
                    None \<Rightarrow>
                      st\<lparr>byId := obj_set (byId st) idKey
                                    \<lparr>metadata = metadataValue, records = [es]\<rparr>\<rparr>
                  | Some existing \<Rightarrow>
                      let comparison = compareMetadata dateParse metadataValue (metadata existing)
                      in if comparison > 0
                           then st\<lparr>st_olderRecordsSkipped :=
                                      st_olderRecordsSkipped st + length (records existing),
                                    byId := obj_set (byId st) idKey
                                      \<lparr>metadata = metadataValue, records = [es]\<rparr>\<rparr>
                         else if comparison = 0
                           then st\<lparr>byId := obj_set (byId st) idKey
                                      (existing\<lparr>records := records existing @ [es]\<rparr>)\<rparr>
                         else st\<lparr>st_olderRecordsSkipped := st_olderRecordsSkipped st + 1\<rparr>)))
      | _ \<Rightarrow> st\<lparr>st_missingId := st_missingId st + 1\<rparr>)"

definition collapseLoop ::
  "(string \<Rightarrow> int option) \<Rightarrow> string \<Rightarrow> string \<Rightarrow> json list \<Rightarrow> collapse_state" where
  "collapseLoop dateParse idField metadataField recs =
     foldl (collapseStep dateParse idField metadataField)
       \<lparr>byId = [], st_missingId = 0, st_missingMetadata = 0, st_olderRecordsSkipped = 0\<rparr> recs"

definition collapseRecords ::
  "(string \<Rightarrow> int option) \<Rightarrow> json list \<Rightarrow> string \<Rightarrow> string \<Rightarrow> jobject list \<times> CollapseSummary" where
  "collapseRecords dateParse recs idField metadataField =
     (let st = collapseLoop dateParse idField metadataField recs;
          groups = map (\<lambda>e. records (snd e)) (byId st);
          collapsed = map mergeGroupRecords groups;
          used = foldl (\<lambda>n groupedRecords. n + length groupedRecords) 0 groups
      in (collapsed,
          \<lparr>totalRecords = int (length recs),
           uniqueIds = int (length collapsed),
           usedRecords = int used,
           mergedRecords = int used - int (length collapsed),
           missingId = int (st_missingId st),
           missingMetadata = int (st_missingMetadata st),
           olderRecordsSkipped = int (st_olderRecordsSkipped st)\<rparr>))"

section \<open>Funding entries\<close>

definition sanitizeFundingRecord :: "jobject \<Rightarrow> jobject" where
  "sanitizeFundingRecord rec =
     foldl (\<lambda>sanitized (key, value).
              if isInternalKey key then sanitized
              else obj_set sanitized key (cloneJsonValue value)) [] rec"

definition removeFundingInternalKeys :: "jobject \<Rightarrow> jobject" where
  "removeFundingInternalKeys rec =
     foldl (\<lambda>sanitized (key, value).
              if key = ''id'' \<or> key = ''project_id'' then sanitized
              else obj_set sanitized key (cloneJsonValue value)) [] rec"

definition createFundingKey :: "json option \<Rightarrow> jobject \<Rightarrow> string" where
  "createFundingKey roundId rec =
     (case roundId of
        Some (JStr s) \<Rightarrow>
          if length (trim s) > 0 then ''round:'' @ trim s
          else ''entry:'' @ stableStringify (JObj rec)
      | _ \<Rightarrow> ''entry:'' @ stableStringify (JObj rec))"

text \<open>
  \<^verbatim>\<open>left.updated_at as JsonValue\<close> hides that the property may be \<^verbatim>\<open>undefined\<close>.
  \<^verbatim>\<open>toTimestamp(undefined)\<close> is \<^verbatim>\<open>null\<close>, and \<^verbatim>\<open>toComparableString(undefined)\<close>
  reaches \<^verbatim>\<open>Object.entries(undefined)\<close> in \<^verbatim>\<open>stableStringify\<close>, which throws a
  \<^verbatim>\<open>TypeError\<close>.
\<close>

definition timestampOfProperty :: "(string \<Rightarrow> int option) \<Rightarrow> json option \<Rightarrow> int option" where
  "timestampOfProperty dateParse p =
     (case p of None \<Rightarrow> None | Some v \<Rightarrow> toTimestamp dateParse v)"

definition comparableOfProperty :: "json option \<Rightarrow> error + string" where
  "comparableOfProperty p =
     (case p of None \<Rightarrow> Inl TypeError | Some v \<Rightarrow> Inr (toComparableString v))"

definition pickLatestByUpdatedAt ::
  "(string \<Rightarrow> int option) \<Rightarrow> jobject \<Rightarrow> jobject \<Rightarrow> error + jobject" where
  "pickLatestByUpdatedAt dateParse left right =
     (case (timestampOfProperty dateParse (obj_get left ''updated_at''),
            timestampOfProperty dateParse (obj_get right ''updated_at'')) of
        (Some leftTimestamp, Some rightTimestamp) \<Rightarrow>
          Inr (if rightTimestamp > leftTimestamp then right else left)
      | _ \<Rightarrow>
        (case comparableOfProperty (obj_get left ''updated_at'') of
           Inl e \<Rightarrow> Inl e
         | Inr leftComparable \<Rightarrow>
        (case comparableOfProperty (obj_get right ''updated_at'') of
           Inl e \<Rightarrow> Inl e
         | Inr rightComparable \<Rightarrow>
             if leftComparable = rightComparable then Inr right
             else Inr (if str_less leftComparable rightComparable then right else left))))"

text \<open>\<^verbatim>\<open>addEntry\<close>, the closure of \<^verbatim>\<open>mergeFundingEntries\<close>, on the map \<^verbatim>\<open>seen\<close>.\<close>

definition addEntry ::
  "(string \<Rightarrow> int option) \<Rightarrow> (string \<times> jobject) list \<Rightarrow> json \<Rightarrow> error + (string \<times> jobject) list" where
  "addEntry dateParse seen value =
     (if \<not> isJsonObject value then Inr seen
      else let sanitized = sanitizeFundingRecord (entriesOf value) in
        if length sanitized = 0 then Inr seen
        else let normalizedKey = createFundingKey (obj_get sanitized ''round_id'') sanitized in
          case obj_get seen normalizedKey of
            None \<Rightarrow> Inr (obj_set seen normalizedKey sanitized)
          | Some existingEntry \<Rightarrow>
              (case pickLatestByUpdatedAt dateParse existingEntry sanitized of
                 Inl e \<Rightarrow> Inl e
               | Inr choice \<Rightarrow> Inr (obj_set seen normalizedKey choice)))"

fun addEntries ::
  "(string \<Rightarrow> int option) \<Rightarrow> (string \<times> jobject) list \<Rightarrow> json list \<Rightarrow> error + (string \<times> jobject) list" where
  "addEntries dateParse seen [] = Inr seen"
| "addEntries dateParse seen (v # vs) =
     (case addEntry dateParse seen v of
        Inl e \<Rightarrow> Inl e
      | Inr seen' \<Rightarrow> addEntries dateParse seen' vs)"

definition mergeFundingEntries ::
  "(string \<Rightarrow> int option) \<Rightarrow> json option \<Rightarrow> jobject list \<Rightarrow> error + jobject list" where
  "mergeFundingEntries dateParse existing incoming =
     (case (case existing of
              None \<Rightarrow> Inr []
            | Some (JArr xs) \<Rightarrow> addEntries dateParse [] xs
            | Some v \<Rightarrow> addEntry dateParse [] v) of
        Inl e \<Rightarrow> Inl e
      | Inr seen1 \<Rightarrow>
        (case addEntries dateParse seen1 (map JObj incoming) of
           Inl e \<Rightarrow> Inl e
         | Inr seen2 \<Rightarrow> Inr (map (\<lambda>e. removeFundingInternalKeys (snd e)) seen2)))"

text \<open>
  \<^verbatim>\<open>fundingById\<close> is a \<^verbatim>\<open>Map\<close> from identity keys to lists of funding records;
  \<^verbatim>\<open>attachFundingData\<close> writes the merged entries into each record that has some.
\<close>

definition attachOne ::
  "(string \<Rightarrow> int option) \<Rightarrow> (string \<Rightarrow> jobject list option) \<Rightarrow> string \<Rightarrow> string \<Rightarrow> jobject
     \<Rightarrow> error + jobject" where
  "attachOne dateParse fundingById idField targetField rec =
     (case obj_get rec idField of
        None \<Rightarrow> Inr rec
      | Some identifier \<Rightarrow>
         (case fundingById (buildIdKey identifier) of
            None \<Rightarrow> Inr rec
          | Some fundingEntries \<Rightarrow>
              if length fundingEntries = 0 then Inr rec
              else (case mergeFundingEntries dateParse (obj_get rec targetField) fundingEntries of
                      Inl e \<Rightarrow> Inl e
                    | Inr entries \<Rightarrow> Inr (obj_set rec targetField (JArr (map JObj entries))))))"

fun attachFundingData ::
  "(string \<Rightarrow> int option) \<Rightarrow> jobject list \<Rightarrow> (string \<Rightarrow> jobject list option) \<Rightarrow> string \<Rightarrow> string
     \<Rightarrow> error + jobject list" where
  "attachFundingData dateParse [] fundingById idField targetField = Inr []"
| "attachFundingData dateParse (rec # recs) fundingById idField targetField =
     (case attachOne dateParse fundingById idField targetField rec of
        Inl e \<Rightarrow> Inl e
      | Inr rec' \<Rightarrow>
          (case attachFundingData dateParse recs fundingById idField targetField of
             Inl e \<Rightarrow> Inl e
           | Inr recs' \<Rightarrow> Inr (rec' # recs')))"

section \<open>Reading the input\<close>

text \<open>\<^verbatim>\<open>trimmed.split(/\r?\n/)\<close>.\<close>

fun splitLines :: "string \<Rightarrow> string list" where
  "splitLines [] = [[]]"
| "splitLines [c] = (if c = CHR 0x0A then [[], []] else [[c]])"
| "splitLines (c # d # cs) =
     (if c = CHR 0x0A then [] # splitLines (d # cs)
      else if c = CHR 0x0D \<and> d = CHR 0x0A then [] # splitLines cs
      else (case splitLines (d # cs) of
              [] \<Rightarrow> [[c]]
            | l # ls \<Rightarrow> (c # l) # ls))"

text \<open>\<open>jsonParse\<close> stands for \<^verbatim>\<open>JSON.parse\<close>, with \<open>None\<close> where it throws.\<close>

fun parseLines :: "(string \<Rightarrow> json option) \<Rightarrow> string list \<Rightarrow> error + json list" where
  "parseLines jsonParse [] = Inr []"
| "parseLines jsonParse (l # ls) =
     (case jsonParse l of
        None \<Rightarrow> Inl SyntaxError
      | Some v \<Rightarrow>
         (case parseLines jsonParse ls of
            Inl e \<Rightarrow> Inl e
          | Inr vs \<Rightarrow> Inr (v # vs)))"

definition parseRecords :: "(string \<Rightarrow> json option) \<Rightarrow> string \<Rightarrow> error + json list" where
  "parseRecords jsonParse raw =
     (let trimmed = trim raw in
      if length trimmed = 0 then Inr []
      else (case jsonParse trimmed of
              Some (JArr parsed) \<Rightarrow> Inr parsed
            | Some v \<Rightarrow> Inl ExpectedArrayOrNdjson
            | None \<Rightarrow>
               (case parseLines jsonParse
                       (filter (\<lambda>line. length line > 0) (map trim (splitLines trimmed))) of
                  Inl e \<Rightarrow> Inl e
                | Inr recs \<Rightarrow>
                    if \<not> list_all isJsonObject recs then Inl SyntaxError
                    else Inr recs)))"

section \<open>Notions used to state the properties\<close>

text \<open>The number of records held in the groups: \<^verbatim>\<open>usedRecords\<close> of the second loop.\<close>

definition groupSizes :: "(string \<times> id_group) list \<Rightarrow> nat" where
  "groupSizes m = sum_list (map (\<lambda>e. length (records (snd e))) m)"

text \<open>
  The values of \<^verbatim>\<open>Date.parse\<close> on the date strings of the examples (ISO dates, read
  as UTC, in milliseconds); the other strings used there are not dates.
\<close>

definition exampleDateParse :: "string \<Rightarrow> int option" where
  "exampleDateParse s =
     (if s = ''2023-01-01'' then Some 1672531200000
      else if s = ''2024-01-01'' then Some 1704067200000
      else if s = ''2024-01-01T00:00:00.000Z'' then Some 1704067200000
      else if s = ''2024-06-01'' then Some 1717200000000
      else None)"

text \<open>
  The per-record checks of the collapse loop: a record misses the identity when it is
  not an object or has no identity field; it misses the freshness when the field is
  absent, \<^verbatim>\<open>null\<close> or a blank string.
\<close>

definition missesIdentity :: "string \<Rightarrow> json \<Rightarrow> bool" where
  "missesIdentity idField rec =
     (case rec of JObj es \<Rightarrow> obj_get es idField = None | _ \<Rightarrow> True)"

definition missesFreshness :: "string \<Rightarrow> json \<Rightarrow> bool" where
  "missesFreshness metadataField rec =
     (case rec of
        JObj es \<Rightarrow>
          (case obj_get es metadataField of
             None \<Rightarrow> True
           | Some metadataValue \<Rightarrow> isMeaninglessMetadata metadataValue)
      | _ \<Rightarrow> True)"

definition usable :: "string \<Rightarrow> string \<Rightarrow> json \<Rightarrow> bool" where
  "usable idField metadataField rec =
     (\<not> missesIdentity idField rec \<and> \<not> missesFreshness metadataField rec)"

text \<open>The end-to-end scenario of the specification: a fresh and an old record of \<^verbatim>\<open>p1\<close>.\<close>

definition exampleRecords :: "json list" where
  "exampleRecords =
     [JObj [(''id'', JStr ''p1''), (''last_metadata_update'', JStr ''2024-06-01''),
            (''name'', JStr ''Foo''),
            (''repositories'', JArr [JObj [(''url'', JStr ''https://x'')]])],
      JObj [(''id'', JStr ''p1''), (''last_metadata_update'', JStr ''2024-01-01''),
            (''name'', JStr ''Old'')]]"

text \<open>
  Records with defects: one without identity, two whose freshness \<^verbatim>\<open>t\<close> is blank or
  \<^verbatim>\<open>null\<close>, and one that can be used.
\<close>

definition defectiveRecords :: "json list" where
  "defectiveRecords =
     [JObj [(''t'', JStr ''T''), (''v'', JNum 1)],
      JObj [(''id'', JStr ''a''), (''t'', JStr '''')],
      JObj [(''id'', JStr ''a''), (''t'', JNull)],
      JObj [(''id'', JStr ''a''), (''t'', JStr ''T''), (''v'', JNum 2)]]"

text \<open>
  The freshness example of the specification: two records of \<^verbatim>\<open>a\<close>, the second one
  fresher.
\<close>

definition olderRecord :: jobject where
  "olderRecord = [(''id'', JStr ''a''), (''t'', JStr ''2023-01-01''), (''v'', JNum 1)]"

definition fresherRecord :: jobject where
  "fresherRecord = [(''id'', JStr ''a''), (''t'', JStr ''2024-01-01''), (''v'', JNum 2)]"

text \<open>Two records of \<^verbatim>\<open>a\<close> whose freshness is the same instant, written in two ways.\<close>

definition dateOnlyRecord :: jobject where
  "dateOnlyRecord = [(''id'', JStr ''a''), (''t'', JStr ''2024-01-01''), (''v'', JNum 1)]"

definition dateTimeRecord :: jobject where
  "dateTimeRecord =
     [(''id'', JStr ''a''), (''t'', JStr ''2024-01-01T00:00:00.000Z''), (''v'', JNum 2)]"

text \<open>
  Input texts: one object on a single line, two objects on two lines, and an array. The
  values of \<^verbatim>\<open>JSON.parse\<close> on them: the two lines together are not JSON.
\<close>

definition singleObjectLine :: string where
  \<open>singleObjectLine = ''{"id":"a","t":1}''\<close>

definition twoObjectLines :: string where
  \<open>twoObjectLines = ''{"id":"a","t":1}'' @ [CHR 0x0A] @ ''{"id":"b","t":2}''\<close>

definition arrayText :: string where
  \<open>arrayText = ''[{"id":"a","t":1}]''\<close>

definition exampleJsonParse :: "string \<Rightarrow> json option" where
  \<open>exampleJsonParse s =
     (if s = ''{"id":"a","t":1}'' then Some (JObj [(''id'', JStr ''a''), (''t'', JNum 1)])
      else if s = ''{"id":"b","t":2}'' then Some (JObj [(''id'', JStr ''b''), (''t'', JNum 2)])
      else if s = ''[{"id":"a","t":1}]''
        then Some (JArr [JObj [(''id'', JStr ''a''), (''t'', JNum 1)]])
      else None)\<close>




definition fundingUndated :: jobject where
  "fundingUndated = [(''round_id'', JStr ''7''), (''amount'', JNum 40)]"

definition fundingUndated' :: jobject where
  "fundingUndated' = [(''round_id'', JStr ''7''), (''amount'', JNum 50)]"

text \<open>
  An object none of whose own keys is internal (begins with \<^verbatim>\<open>_dlt\<close>), and a value
  that is a list of such objects.
\<close>

definition noInternalKeys :: "jobject \<Rightarrow> bool" where
  "noInternalKeys obj = list_all (\<lambda>e. \<not> isInternalKey (fst e)) obj"

definition cleanObjects :: "json \<Rightarrow> bool" where
  "cleanObjects v =
     (case v of
        JArr xs \<Rightarrow> list_all (\<lambda>x. case x of JObj es \<Rightarrow> noInternalKeys es | _ \<Rightarrow> False) xs
      | _ \<Rightarrow> False)"

text \<open>A record and a funding entry that carry the loader's bookkeeping keys.\<close>

definition loaderRecord :: jobject where
  "loaderRecord =
     [(''id'', JStr ''a''), (''t'', JStr ''T''), (''_dlt_id'', JStr ''x''),
      (''_dlt_load_id'', JStr ''1''), (''repo__dlt_id'', JStr ''y''),
      (''repositories'',
         JArr [JObj [(''url'', JStr ''u''), (''_dlt_parent_id'', JStr ''x'')]])]"

definition loaderFunding :: jobject where
  "loaderFunding =
     [(''round_id'', JStr ''7''), (''_dlt_id'', JStr ''z''), (''amount'', JNum 10)]"

text \<open>A keyed store (a \<^verbatim>\<open>Map\<close>) all of whose objects are without internal keys.\<close>

definition cleanStore :: "(string \<times> jobject) list \<Rightarrow> bool" where
  "cleanStore m = (\<forall>e \<in> set m. noInternalKeys (snd e))"

definition exampleFundingById :: "string \<Rightarrow> jobject list option" where
  "exampleFundingById key = (if key = ''a'' then Some [loaderFunding] else None)"

text \<open>The merged output for \<open>loaderRecord\<close>, before and after the funding is attached.\<close>

definition loaderMerged :: jobject where
  "loaderMerged =
     [(''id'', JStr ''a''), (''t'', JStr ''T''),
      (''repositories'', JArr [JObj [(''url'', JStr ''u'')]])]"

definition loaderAttached :: jobject where
  "loaderAttached =
     [(''id'', JStr ''a''), (''t'', JStr ''T''),
      (''repositories'', JArr [JObj [(''url'', JStr ''u'')]]),
      (''selfReportedFunding'',
         JArr [JObj [(''round_id'', JStr ''7''), (''amount'', JNum 10)]])]"

text \<open>
  The positional zip as the specification words it: the items of a field are the elements
  of its list, or the value itself; there is one object per position up to the length of
  the longest field; the object at a position takes each field's item at that position,
  and the only item of a single-valued field at every position.
\<close>

fun fieldItems :: "json \<Rightarrow> json list" where
  "fieldItems (JArr xs) = xs"
| "fieldItems v = [v]"

definition longest :: "nat list \<Rightarrow> nat" where
  "longest ns = foldr max ns 0"

definition itemAt :: "json list \<Rightarrow> nat \<Rightarrow> json option" where
  "itemAt items index =
     (if index < length items then Some (items ! index)
      else if length items = 1 then Some (hd items)
      else None)"

definition specRepositoryAt :: "jobject \<Rightarrow> nat \<Rightarrow> jobject" where
  "specRepositoryAt repoFields index =
     concat (map (\<lambda>e. case itemAt (fieldItems (snd e)) index of
                          None \<Rightarrow> []
                        | Some item \<Rightarrow> [(fst e, item)]) repoFields)"

definition specRepositoryZip :: "jobject \<Rightarrow> jobject list" where
  "specRepositoryZip repoFields =
     map (specRepositoryAt repoFields)
       [0..<longest (map (\<lambda>e. length (fieldItems (snd e))) repoFields)]"

text \<open>
  What the code does before it zips: the null and blank items of each field are dropped,
  and a field left without items is dropped.
\<close>

definition dropEmptyItems :: "jobject \<Rightarrow> jobject" where
  "dropEmptyItems repoFields =
     map (\<lambda>e. (fst e, JArr (normalizeRepositoryValue (snd e))))
       (filter (\<lambda>e. normalizeRepositoryValue (snd e) \<noteq> []) repoFields)"

text \<open>
  The three kinds of entries of a record that \<^verbatim>\<open>extractRepositoryEntries\<close> tells apart:
  the \<^verbatim>\<open>repo_<attribute>\<close> fields (with the prefix removed), the \<^verbatim>\<open>repositories\<close> field,
  and the ordinary fields.
\<close>

definition isRepoField :: "string \<Rightarrow> bool" where
  "isRepoField key =
     (\<not> isInternalKey key \<and> key \<noteq> ''repositories'' \<and> startsWith key ''repo_''
      \<and> length (drop 5 key) > 0)"

definition isOrdinaryField :: "string \<Rightarrow> bool" where
  "isOrdinaryField key =
     (\<not> isInternalKey key \<and> key \<noteq> ''repositories'' \<and> \<not> startsWith key ''repo_'')"

definition repoFieldsOf :: "jobject \<Rightarrow> jobject" where
  "repoFieldsOf rec = map (\<lambda>e. (drop 5 (fst e), snd e)) (filter (\<lambda>e. isRepoField (fst e)) rec)"

definition repositoriesOf :: "jobject \<Rightarrow> jobject list" where
  "repositoriesOf rec =
     concat (map (\<lambda>e. if fst e = ''repositories'' then normalizeRepositoryCollection (snd e)
                       else []) rec)"

definition ordinaryFieldsOf :: "jobject \<Rightarrow> jobject" where
  "ordinaryFieldsOf rec = filter (\<lambda>e. isOrdinaryField (fst e)) rec"

text \<open>The record of the repository example, and one with a \<^verbatim>\<open>null\<close> among the URLs.\<close>

definition zipExample :: jobject where
  "zipExample = [(''repo_url'', JArr [JStr ''u1'', JStr ''u2'']), (''repo_stars'', JNum 5)]"

definition zipWithNull :: jobject where
  "zipWithNull =
     [(''repo_url'', JArr [JStr ''u1'', JNull, JStr ''u3'']),
      (''repo_stars'', JArr [JNum 1, JNum 2, JNum 3])]"












text \<open>
  Notions for the freshness selection. The identity key and the freshness value of a
  usable record; the usable records of one identity, in input order; a record is older
  when a record of its identity compares strictly greater; the survivors of an identity
  are its records that are not older. The comparison is consistent on a list of freshness
  values when it is transitive there, which \<^verbatim>\<open>compareMetadata\<close> is not in general: it
  mixes a numeric and a lexicographic order.
\<close>

definition recordKey :: "string \<Rightarrow> json \<Rightarrow> string" where
  "recordKey idField rec =
     (case obj_get (entriesOf rec) idField of Some idValue \<Rightarrow> buildIdKey idValue | None \<Rightarrow> [])"

definition freshnessOf :: "string \<Rightarrow> json \<Rightarrow> json" where
  "freshnessOf metadataField rec =
     (case obj_get (entriesOf rec) metadataField of Some m \<Rightarrow> m | None \<Rightarrow> JNull)"

definition ofIdentity :: "string \<Rightarrow> string \<Rightarrow> string \<Rightarrow> json list \<Rightarrow> json list" where
  "ofIdentity idField metadataField key recs =
     filter (\<lambda>r. usable idField metadataField r \<and> recordKey idField r = key) recs"

definition isOlder :: "(string \<Rightarrow> int option) \<Rightarrow> string \<Rightarrow> json list \<Rightarrow> json \<Rightarrow> bool" where
  "isOlder dateParse metadataField rs r =
     list_ex (\<lambda>r'. compareMetadata dateParse (freshnessOf metadataField r')
                      (freshnessOf metadataField r) > 0) rs"

definition survivors ::
  "(string \<Rightarrow> int option) \<Rightarrow> string \<Rightarrow> string \<Rightarrow> string \<Rightarrow> json list \<Rightarrow> json list" where
  "survivors dateParse idField metadataField key recs =
     filter (\<lambda>r. \<not> isOlder dateParse metadataField
                     (ofIdentity idField metadataField key recs) r)
       (ofIdentity idField metadataField key recs)"

definition consistentOrder :: "(string \<Rightarrow> int option) \<Rightarrow> json list \<Rightarrow> bool" where
  "consistentOrder dateParse ms =
     list_all (\<lambda>a. list_all (\<lambda>b. list_all (\<lambda>c.
        0 \<le> compareMetadata dateParse a b \<and> 0 \<le> compareMetadata dateParse b c
          \<longrightarrow> 0 \<le> compareMetadata dateParse a c) ms) ms) ms"

text \<open>The merged output record of an identity: the merge of the group the loop holds for it.\<close>

definition mergedFor ::
  "(string \<Rightarrow> int option) \<Rightarrow> json list \<Rightarrow> string \<Rightarrow> string \<Rightarrow> string \<Rightarrow> jobject option" where
  "mergedFor dateParse recs idField metadataField key =
     (case obj_get (byId (collapseLoop dateParse idField metadataField recs)) key of
        None \<Rightarrow> None
      | Some g \<Rightarrow> Some (mergeGroupRecords (records g)))"

text \<open>
  Three records of \<^verbatim>\<open>a\<close> whose freshness values compare in a cycle: \<^verbatim>\<open>10\<close> is greater
  than \<^verbatim>\<open>9\<close> as a number, \<^verbatim>\<open>"5x"\<close> is no date and greater than \<^verbatim>\<open>"10"\<close> as a string,
  and \<^verbatim>\<open>"9"\<close> is greater than \<^verbatim>\<open>"5x"\<close> as a string.
\<close>

definition cycleTen :: jobject where
  "cycleTen = [(''id'', JStr ''a''), (''t'', JNum 10), (''v'', JStr ''ten'')]"

definition cycleFiveX :: jobject where
  "cycleFiveX = [(''id'', JStr ''a''), (''t'', JStr ''5x''), (''v'', JStr ''fivex'')]"

definition cycleNine :: jobject where
  "cycleNine = [(''id'', JStr ''a''), (''t'', JNum 9), (''v'', JStr ''nine'')]"






text \<open>
  A record whose repositories merge by URL in a first collapse and by \<^verbatim>\<open>id\<close> in a
  second one.
\<close>

definition sharedRepositories :: jobject where
  "sharedRepositories =
     [(''id'', JStr ''a''), (''t'', JStr ''T''),
      (''repositories'',
         JArr [JObj [(''url'', JStr ''u''), (''id'', JStr ''i'')],
               JObj [(''url'', JStr '' u''), (''id'', JStr ''i'')],
               JObj [(''id'', JStr ''i'')]])]"

section \<open>Objects as entry lists\<close>

lemma obj_get_obj_set:
  "obj_get (obj_set es k v) k' = (if k' = k then Some v else obj_get es k')"
  by (induction es) (auto simp: obj_get_def)

lemma keys_obj_set:
  "map fst (obj_set es k v) = (if k \<in> set (map fst es) then map fst es else map fst es @ [k])"
  by (induction es) (auto simp: rev_image_eqI)

lemma set_keys_obj_set: "set (map fst (obj_set es k v)) = insert k (set (map fst es))"
  by (auto simp: keys_obj_set)

lemma obj_get_None_iff: "obj_get es k = None \<longleftrightarrow> k \<notin> set (map fst es)"
  by (simp add: obj_get_def map_of_eq_None_iff)

lemma obj_set_absent: "obj_get es k = None \<Longrightarrow> obj_set es k v = es @ [(k, v)]"
  by (induction es) (auto simp: obj_get_def split: if_splits)

lemma length_obj_set_present: "obj_get es k = Some w \<Longrightarrow> length (obj_set es k v) = length es"
  by (induction es) (auto simp: obj_get_def split: if_splits)

section \<open>Accounting of the collapse loop\<close>

lemma groupSizes_absent:
  "obj_get m k = None \<Longrightarrow> groupSizes (obj_set m k g) = groupSizes m + length (records g)"
  by (simp add: obj_set_absent groupSizes_def)

lemma groupSizes_present:
  "obj_get m k = Some g0 \<Longrightarrow>
     groupSizes (obj_set m k g) + length (records g0) = groupSizes m + length (records g)"
  by (induction m) (auto simp: obj_get_def groupSizes_def split: if_splits)

lemma groupSizes_ge:
  "obj_get m k = Some g0 \<Longrightarrow> length (records g0) \<le> groupSizes m"
  by (induction m) (auto simp: obj_get_def groupSizes_def split: if_splits)

lemma collapseStep_accounting:
  "groupSizes (byId (collapseStep dp idField metadataField st r))
     + st_missingId (collapseStep dp idField metadataField st r)
     + st_missingMetadata (collapseStep dp idField metadataField st r)
     + st_olderRecordsSkipped (collapseStep dp idField metadataField st r)
   = groupSizes (byId st) + st_missingId st + st_missingMetadata st
     + st_olderRecordsSkipped st + 1"
proof -
  have present: "\<And>m k g0 g. obj_get m k = Some g0 \<Longrightarrow>
      groupSizes (obj_set m k g) = groupSizes m + length (records g) - length (records g0)
      \<and> length (records g0) \<le> groupSizes m + length (records g)"
    using groupSizes_present by (metis add_diff_cancel_right' le_add2)
  show ?thesis
    by (auto simp: collapseStep_def Let_def groupSizes_absent present
             split: json.splits option.splits dest: groupSizes_ge)
qed

lemma foldl_collapseStep_accounting:
  "groupSizes (byId (foldl (collapseStep dp idField metadataField) st rs))
     + st_missingId (foldl (collapseStep dp idField metadataField) st rs)
     + st_missingMetadata (foldl (collapseStep dp idField metadataField) st rs)
     + st_olderRecordsSkipped (foldl (collapseStep dp idField metadataField) st rs)
   = groupSizes (byId st) + st_missingId st + st_missingMetadata st
     + st_olderRecordsSkipped st + length rs"
proof (induction rs arbitrary: st)
  case Nil
  show ?case by simp
next
  case (Cons r rs)
  show ?case
    using Cons.IH [of "collapseStep dp idField metadataField st r"]
          collapseStep_accounting [of dp idField metadataField st r]
    by simp
qed

lemma foldl_length_sum:
  "foldl (\<lambda>n groupedRecords. n + length groupedRecords) a gs = a + sum_list (map length gs)"
  by (induction gs arbitrary: a) auto

lemma set_obj_set_subset: "set (obj_set m k g) \<subseteq> insert (k, g) (set m)"
  by (induction m) (auto split: if_splits)

lemma groups_nonempty_step:
  assumes "\<forall>e \<in> set (byId st). records (snd e) \<noteq> []"
  shows "\<forall>e \<in> set (byId (collapseStep dp idField metadataField st r)). records (snd e) \<noteq> []"
proof -
  note sub = set_obj_set_subset
  have mem: "\<And>m k g0. obj_get m k = Some g0 \<Longrightarrow> (k, g0) \<in> set m"
    by (simp add: obj_get_def map_of_SomeD)
  show ?thesis
    using assms
    by (auto simp: collapseStep_def Let_def split: json.splits option.splits
             dest!: subsetD [OF sub] dest: mem)
qed

lemma groups_nonempty_foldl:
  "\<forall>e \<in> set (byId st). records (snd e) \<noteq> [] \<Longrightarrow>
   \<forall>e \<in> set (byId (foldl (collapseStep dp idField metadataField) st rs)). records (snd e) \<noteq> []"
proof (induction rs arbitrary: st)
  case Nil
  then show ?case by simp
next
  case (Cons r rs)
  show ?case
    using Cons.IH [OF groups_nonempty_step [OF Cons.prems]] by simp
qed

lemma length_le_groupSizes:
  "\<forall>e \<in> set m. records (snd e) \<noteq> [] \<Longrightarrow> length m \<le> groupSizes m"
proof (induction m)
  case Nil
  show ?case by (simp add: groupSizes_def)
next
  case (Cons e m)
  then have "length (records (snd e)) \<ge> 1" by (cases "records (snd e)") auto
  with Cons show ?case by (simp add: groupSizes_def)
qed

lemma usedRecords_groupSizes:
  "foldl (\<lambda>n groupedRecords. n + length groupedRecords) 0 (map (\<lambda>e. records (snd e)) m)
     = groupSizes m"
  by (simp add: foldl_length_sum groupSizes_def comp_def)

text \<open>
  Claim C9. The summary of \<^verbatim>\<open>collapseRecords\<close> counts every input record exactly
  once: \<^verbatim>\<open>totalRecords = usedRecords + missingId + missingMetadata + olderRecordsSkipped\<close>;
  \<^verbatim>\<open>uniqueIds\<close> is the length of the output list, and
  \<^verbatim>\<open>mergedRecords = usedRecords - uniqueIds\<close>, which is never negative.
\<close>

theorem collapse_summary_accounting:
  "(case collapseRecords dateParse recs idField metadataField of (collapsed, summary) \<Rightarrow>
      totalRecords summary = int (length recs)
    \<and> totalRecords summary =
        usedRecords summary + missingId summary + missingMetadata summary
          + olderRecordsSkipped summary
    \<and> uniqueIds summary = int (length collapsed)
    \<and> mergedRecords summary = usedRecords summary - uniqueIds summary
    \<and> 0 \<le> mergedRecords summary)"
proof -
  let ?st = "collapseLoop dateParse idField metadataField recs"
  have acc: "groupSizes (byId ?st) + st_missingId ?st + st_missingMetadata ?st
               + st_olderRecordsSkipped ?st = length recs"
    using foldl_collapseStep_accounting
      [of dateParse idField metadataField
          "\<lparr>byId = [], st_missingId = 0, st_missingMetadata = 0, st_olderRecordsSkipped = 0\<rparr>" recs]
    by (simp add: collapseLoop_def groupSizes_def)
  have "\<forall>e \<in> set (byId ?st). records (snd e) \<noteq> []"
    unfolding collapseLoop_def by (rule groups_nonempty_foldl) simp
  then have le: "length (byId ?st) \<le> groupSizes (byId ?st)"
    by (rule length_le_groupSizes)
  show ?thesis
    using acc le
    by (simp add: collapseRecords_def Let_def usedRecords_groupSizes)
qed

theorem collapse_summary_accounting_witness:
  "(case collapseRecords exampleDateParse exampleRecords ''id'' ''last_metadata_update'' of
      (collapsed, summary) \<Rightarrow>
        length collapsed = 1
      \<and> summary = \<lparr>totalRecords = 2, uniqueIds = 1, usedRecords = 1, mergedRecords = 0,
           missingId = 0, missingMetadata = 0, olderRecordsSkipped = 1\<rparr>
      \<and> totalRecords summary =
          usedRecords summary + missingId summary + missingMetadata summary
            + olderRecordsSkipped summary
      \<and> mergedRecords summary = usedRecords summary - uniqueIds summary)"
proof -
  have run: "collapseRecords exampleDateParse exampleRecords ''id'' ''last_metadata_update'' =
      ([[(''id'', JStr ''p1''), (''last_metadata_update'', JStr ''2024-06-01''),
         (''name'', JStr ''Foo''),
         (''repositories'', JArr [JObj [(''url'', JStr ''https://x'')]])]],
       \<lparr>totalRecords = 2, uniqueIds = 1, usedRecords = 1, mergedRecords = 0,
          missingId = 0, missingMetadata = 0, olderRecordsSkipped = 1\<rparr>)"
    by code_simp
  show ?thesis
    using collapse_summary_accounting
      [where dateParse = exampleDateParse and recs = exampleRecords
         and idField = "''id''" and metadataField = "''last_metadata_update''"]
    unfolding run by simp
qed


lemma collapseStep_missesIdentity:
  "missesIdentity idField r \<Longrightarrow>
   collapseStep dp idField metadataField st r = st\<lparr>st_missingId := st_missingId st + 1\<rparr>"
  by (auto simp: missesIdentity_def collapseStep_def split: json.splits option.splits)

lemma collapseStep_missesFreshness:
  "\<not> missesIdentity idField r \<Longrightarrow> missesFreshness metadataField r \<Longrightarrow>
   collapseStep dp idField metadataField st r =
     st\<lparr>st_missingMetadata := st_missingMetadata st + 1\<rparr>"
  by (auto simp: missesIdentity_def missesFreshness_def collapseStep_def
           split: json.splits option.splits)

lemma collapseStep_usable_counters:
  "usable idField metadataField r \<Longrightarrow>
   st_missingId (collapseStep dp idField metadataField st r) = st_missingId st
   \<and> st_missingMetadata (collapseStep dp idField metadataField st r) = st_missingMetadata st"
  by (auto simp: usable_def missesIdentity_def missesFreshness_def collapseStep_def Let_def
           split: json.splits option.splits)

lemma collapseStep_usable_groups:
  "usable idField metadataField r \<Longrightarrow> byId st = byId st' \<Longrightarrow>
   st_olderRecordsSkipped st = st_olderRecordsSkipped st' \<Longrightarrow>
   byId (collapseStep dp idField metadataField st r)
     = byId (collapseStep dp idField metadataField st' r)
   \<and> st_olderRecordsSkipped (collapseStep dp idField metadataField st r)
     = st_olderRecordsSkipped (collapseStep dp idField metadataField st' r)"
  by (auto simp: usable_def missesIdentity_def missesFreshness_def collapseStep_def Let_def
           split: json.splits option.splits)

lemma collapseStep_defective_groups:
  "\<not> usable idField metadataField r \<Longrightarrow>
   byId (collapseStep dp idField metadataField st r) = byId st
   \<and> st_olderRecordsSkipped (collapseStep dp idField metadataField st r)
     = st_olderRecordsSkipped st"
  by (cases "missesIdentity idField r")
     (auto simp: usable_def collapseStep_missesIdentity collapseStep_missesFreshness)

lemma foldl_collapseStep_missingId:
  "st_missingId (foldl (collapseStep dp idField metadataField) st rs)
     = st_missingId st + length (filter (missesIdentity idField) rs)"
proof (induction rs arbitrary: st)
  case Nil
  show ?case by simp
next
  case (Cons r rs)
  show ?case
  proof (cases "missesIdentity idField r")
    case True
    then show ?thesis by (simp add: Cons.IH collapseStep_missesIdentity)
  next
    case False
    show ?thesis
    proof (cases "missesFreshness metadataField r")
      case True
      with False show ?thesis by (simp add: Cons.IH collapseStep_missesFreshness)
    next
      case nf: False
      with False have "usable idField metadataField r" by (simp add: usable_def)
      with False show ?thesis by (simp add: Cons.IH collapseStep_usable_counters)
    qed
  qed
qed

lemma foldl_collapseStep_missingMetadata:
  "st_missingMetadata (foldl (collapseStep dp idField metadataField) st rs)
     = st_missingMetadata st
       + length (filter (\<lambda>r. \<not> missesIdentity idField r \<and> missesFreshness metadataField r) rs)"
proof (induction rs arbitrary: st)
  case Nil
  show ?case by simp
next
  case (Cons r rs)
  show ?case
  proof (cases "missesIdentity idField r")
    case True
    then show ?thesis by (simp add: Cons.IH collapseStep_missesIdentity)
  next
    case False
    show ?thesis
    proof (cases "missesFreshness metadataField r")
      case True
      with False show ?thesis by (simp add: Cons.IH collapseStep_missesFreshness)
    next
      case nf: False
      with False have "usable idField metadataField r" by (simp add: usable_def)
      with False nf show ?thesis by (simp add: Cons.IH collapseStep_usable_counters)
    qed
  qed
qed

lemma foldl_collapseStep_filter_usable:
  "byId st = byId st' \<Longrightarrow> st_olderRecordsSkipped st = st_olderRecordsSkipped st' \<Longrightarrow>
   byId (foldl (collapseStep dp idField metadataField) st rs)
     = byId (foldl (collapseStep dp idField metadataField) st'
               (filter (usable idField metadataField) rs))
   \<and> st_olderRecordsSkipped (foldl (collapseStep dp idField metadataField) st rs)
     = st_olderRecordsSkipped (foldl (collapseStep dp idField metadataField) st'
               (filter (usable idField metadataField) rs))"
proof (induction rs arbitrary: st st')
  case Nil
  then show ?case by simp
next
  case (Cons r rs)
  show ?case
  proof (cases "usable idField metadataField r")
    case True
    from collapseStep_usable_groups [OF True Cons.prems, of dp]
    show ?thesis using True by (simp add: Cons.IH)
  next
    case False
    from collapseStep_defective_groups [OF False, of dp st] Cons.prems
    show ?thesis using False by (simp add: Cons.IH)
  qed
qed

lemma collapseLoop_filter_usable:
  "byId (collapseLoop dp idField metadataField rs)
     = byId (collapseLoop dp idField metadataField (filter (usable idField metadataField) rs))
   \<and> st_olderRecordsSkipped (collapseLoop dp idField metadataField rs)
     = st_olderRecordsSkipped
         (collapseLoop dp idField metadataField (filter (usable idField metadataField) rs))"
  unfolding collapseLoop_def by (rule foldl_collapseStep_filter_usable) simp_all

section \<open>Records with defects\<close>

text \<open>
  Claim C8, as amended. The identity is checked first: a record that is not an object or
  has no identity field is counted in \<^verbatim>\<open>missingId\<close>; a record that has the
  identity field and whose freshness field is absent, \<^verbatim>\<open>null\<close> or a blank string is
  counted in \<^verbatim>\<open>missingMetadata\<close>. Neither reaches a group: the output, the used
  records and the older records skipped are those of the input without the defective
  records. The empty input gives the empty output and a summary of zeros.
\<close>

theorem defective_records_counted_and_excluded:
  "(case collapseRecords dateParse recs idField metadataField of (collapsed, summary) \<Rightarrow>
      missingId summary = int (length (filter (missesIdentity idField) recs))
    \<and> missingMetadata summary =
        int (length (filter (\<lambda>r. \<not> missesIdentity idField r \<and> missesFreshness metadataField r) recs))
    \<and> collapsed =
        fst (collapseRecords dateParse (filter (usable idField metadataField) recs)
               idField metadataField)
    \<and> usedRecords summary =
        usedRecords (snd (collapseRecords dateParse (filter (usable idField metadataField) recs)
               idField metadataField))
    \<and> olderRecordsSkipped summary =
        olderRecordsSkipped (snd (collapseRecords dateParse
               (filter (usable idField metadataField) recs) idField metadataField)))
   \<and> collapseRecords dateParse [] idField metadataField =
       ([], \<lparr>totalRecords = 0, uniqueIds = 0, usedRecords = 0, mergedRecords = 0,
              missingId = 0, missingMetadata = 0, olderRecordsSkipped = 0\<rparr>)"
proof -
  have empty: "collapseRecords dateParse [] idField metadataField =
       ([], \<lparr>totalRecords = 0, uniqueIds = 0, usedRecords = 0, mergedRecords = 0,
              missingId = 0, missingMetadata = 0, olderRecordsSkipped = 0\<rparr>)"
    by (simp add: collapseRecords_def collapseLoop_def)
  show ?thesis
    using collapseLoop_filter_usable [of dateParse idField metadataField recs]
          foldl_collapseStep_missingId [of dateParse idField metadataField _ recs]
          foldl_collapseStep_missingMetadata [of dateParse idField metadataField _ recs]
    by (simp add: empty) (simp add: collapseRecords_def Let_def collapseLoop_def)
qed

theorem defective_records_counted_and_excluded_witness:
  "(case collapseRecords exampleDateParse defectiveRecords ''id'' ''t'' of
      (collapsed, summary) \<Rightarrow>
        missingId summary = 1 \<and> missingMetadata summary = 2
      \<and> collapsed = [[(''id'', JStr ''a''), (''t'', JStr ''T''), (''v'', JNum 2)]]
      \<and> usedRecords summary = 1 \<and> olderRecordsSkipped summary = 0)"
proof -
  have fs: "filter (usable ''id'' ''t'') defectiveRecords =
              [JObj [(''id'', JStr ''a''), (''t'', JStr ''T''), (''v'', JNum 2)]]"
           "length (filter (missesIdentity ''id'') defectiveRecords) = 1"
           "length (filter (\<lambda>r. \<not> missesIdentity ''id'' r \<and> missesFreshness ''t'' r)
                      defectiveRecords) = 2"
    by code_simp+
  have run: "collapseRecords exampleDateParse
               [JObj [(''id'', JStr ''a''), (''t'', JStr ''T''), (''v'', JNum 2)]] ''id'' ''t'' =
             ([[(''id'', JStr ''a''), (''t'', JStr ''T''), (''v'', JNum 2)]],
              \<lparr>totalRecords = 1, uniqueIds = 1, usedRecords = 1, mergedRecords = 0,
                 missingId = 0, missingMetadata = 0, olderRecordsSkipped = 0\<rparr>)"
    by code_simp
  show ?thesis
    using defective_records_counted_and_excluded
      [where dateParse = exampleDateParse and recs = defectiveRecords
         and idField = "''id''" and metadataField = "''t''"]
    unfolding fs run by (simp split: prod.splits)
qed

text \<open>
  The claim as stated fails on a record that lacks the identity and whose freshness is
  \<^verbatim>\<open>null\<close>: it is counted in \<^verbatim>\<open>missingId\<close> only.
\<close>

theorem missing_both_counterexample:
  "missesFreshness ''t'' (JObj [(''name'', JStr ''n''), (''t'', JNull)])
   \<and> missingMetadata (snd (collapseRecords exampleDateParse
        [JObj [(''name'', JStr ''n''), (''t'', JNull)]] ''id'' ''t'')) = 0
   \<and> missingId (snd (collapseRecords exampleDateParse
        [JObj [(''name'', JStr ''n''), (''t'', JNull)]] ''id'' ''t'')) = 1"
  by code_simp

section \<open>Two records of one identity\<close>

lemma collapseLoop_two:
  assumes "obj_get e1 idField = Some i1" "obj_get e2 idField = Some i2"
    and "buildIdKey i1 = buildIdKey i2"
    and "obj_get e1 metadataField = Some m1" "obj_get e2 metadataField = Some m2"
    and "\<not> isMeaninglessMetadata m1" "\<not> isMeaninglessMetadata m2"
  shows "collapseLoop dateParse idField metadataField [JObj e1, JObj e2] =
     (if compareMetadata dateParse m2 m1 > 0
        then \<lparr>byId = [(buildIdKey i1, \<lparr>metadata = m2, records = [e2]\<rparr>)],
              st_missingId = 0, st_missingMetadata = 0, st_olderRecordsSkipped = 1\<rparr>
      else if compareMetadata dateParse m2 m1 = 0
        then \<lparr>byId = [(buildIdKey i1, \<lparr>metadata = m1, records = [e1, e2]\<rparr>)],
              st_missingId = 0, st_missingMetadata = 0, st_olderRecordsSkipped = 0\<rparr>
      else \<lparr>byId = [(buildIdKey i1, \<lparr>metadata = m1, records = [e1]\<rparr>)],
              st_missingId = 0, st_missingMetadata = 0, st_olderRecordsSkipped = 1\<rparr>)"
  using assms
  by (simp add: collapseLoop_def collapseStep_def Let_def obj_get_def)

lemma collapseRecords_two:
  assumes "obj_get e1 idField = Some i1" "obj_get e2 idField = Some i2"
    and "buildIdKey i1 = buildIdKey i2"
    and "obj_get e1 metadataField = Some m1" "obj_get e2 metadataField = Some m2"
    and "\<not> isMeaninglessMetadata m1" "\<not> isMeaninglessMetadata m2"
  shows "fst (collapseRecords dateParse [JObj e1, JObj e2] idField metadataField) =
     (if compareMetadata dateParse m2 m1 > 0 then [mergeGroupRecords [e2]]
      else if compareMetadata dateParse m2 m1 = 0 then [mergeGroupRecords [e1, e2]]
      else [mergeGroupRecords [e1]])"
    and "olderRecordsSkipped (snd (collapseRecords dateParse [JObj e1, JObj e2] idField metadataField)) =
     (if compareMetadata dateParse m2 m1 = 0 then 0 else 1)"
  by (simp_all add: collapseRecords_def Let_def collapseLoop_two [OF assms])

section \<open>Freshness values that are timestamps\<close>

text \<open>
  Claim C3, as amended. When both freshness values are timestamps that differ, the
  comparison is numeric and the record with the larger timestamp is the one kept. When the
  timestamps are equal, \<^verbatim>\<open>compareMetadata\<close> goes on to the string forms: the records are
  of equal freshness, and merged into one group, only if their string forms are the same;
  otherwise the record with the greater string form is kept alone.
\<close>

theorem timestamps_compared_numerically_then_as_strings:
  assumes "toTimestamp dateParse m1 = Some t1" "toTimestamp dateParse m2 = Some t2"
    and "obj_get e1 idField = Some i1" "obj_get e2 idField = Some i2"
    and "buildIdKey i1 = buildIdKey i2"
    and "obj_get e1 metadataField = Some m1" "obj_get e2 metadataField = Some m2"
    and "\<not> isMeaninglessMetadata m1" "\<not> isMeaninglessMetadata m2"
  shows "compareMetadata dateParse m2 m1 =
           (if t2 > t1 then 1 else if t2 < t1 then - 1
            else if toComparableString m2 = toComparableString m1 then 0
            else if str_less (toComparableString m1) (toComparableString m2) then 1 else - 1)
       \<and> fst (collapseRecords dateParse [JObj e1, JObj e2] idField metadataField) =
           (if t2 > t1 then [mergeGroupRecords [e2]]
            else if t2 < t1 then [mergeGroupRecords [e1]]
            else if toComparableString m2 = toComparableString m1 then [mergeGroupRecords [e1, e2]]
            else if str_less (toComparableString m1) (toComparableString m2)
              then [mergeGroupRecords [e2]]
            else [mergeGroupRecords [e1]])"
proof -
  have cmp: "compareMetadata dateParse m2 m1 =
           (if t2 > t1 then 1 else if t2 < t1 then - 1
            else if toComparableString m2 = toComparableString m1 then 0
            else if str_less (toComparableString m1) (toComparableString m2) then 1 else - 1)"
    using assms(1,2) by (simp add: compareMetadata_def)
  show ?thesis
    unfolding collapseRecords_two(1) [OF assms(3-9)]
    by (simp add: cmp)
qed

theorem timestamps_compared_numerically_then_as_strings_witness:
  "compareMetadata exampleDateParse (JStr ''2024-01-01'') (JStr ''2023-01-01'') = 1
   \<and> fst (collapseRecords exampleDateParse [JObj olderRecord, JObj fresherRecord] ''id'' ''t'')
       = [fresherRecord]"
proof -
  have m: "mergeGroupRecords [fresherRecord] = fresherRecord"
    by code_simp
  have "compareMetadata exampleDateParse (JStr ''2024-01-01'') (JStr ''2023-01-01'') = 1
      \<and> fst (collapseRecords exampleDateParse [JObj olderRecord, JObj fresherRecord] ''id'' ''t'')
          = [mergeGroupRecords [fresherRecord]]"
    using timestamps_compared_numerically_then_as_strings
      [where dateParse = exampleDateParse and idField = "''id''" and metadataField = "''t''"
         and ?e1.0 = olderRecord and ?e2.0 = fresherRecord
         and ?i1.0 = "JStr ''a''" and ?i2.0 = "JStr ''a''"
         and ?m1.0 = "JStr ''2023-01-01''" and ?m2.0 = "JStr ''2024-01-01''"
         and ?t1.0 = 1672531200000 and ?t2.0 = 1704067200000]
    by (simp add: olderRecord_def fresherRecord_def exampleDateParse_def obj_get_def trim_def
          isSpace_def)
  then show ?thesis by (simp only: m)
qed

text \<open>
  The claim as stated fails for \<^verbatim>\<open>2024-01-01\<close> and
  \<^verbatim>\<open>2024-01-01T00:00:00.000Z\<close>: the timestamps are equal, the comparison is not
  \<^verbatim>\<open>0\<close>, and the later record replaces the earlier one.
\<close>

theorem equal_timestamps_counterexample:
  "toTimestamp exampleDateParse (JStr ''2024-01-01'') = Some 1704067200000
   \<and> toTimestamp exampleDateParse (JStr ''2024-01-01T00:00:00.000Z'') = Some 1704067200000
   \<and> compareMetadata exampleDateParse (JStr ''2024-01-01T00:00:00.000Z'') (JStr ''2024-01-01'') = 1
   \<and> collapseRecords exampleDateParse [JObj dateOnlyRecord, JObj dateTimeRecord] ''id'' ''t'' =
       ([dateTimeRecord],
        \<lparr>totalRecords = 2, uniqueIds = 1, usedRecords = 1, mergedRecords = 0,
           missingId = 0, missingMetadata = 0, olderRecordsSkipped = 1\<rparr>)"
  by code_simp

section \<open>Reading the input\<close>

lemma parseRecords_array:
  "length (trim raw) > 0 \<Longrightarrow> jsonParse (trim raw) = Some (JArr parsed) \<Longrightarrow>
   parseRecords jsonParse raw = Inr parsed"
  by (simp add: parseRecords_def)

lemma parseRecords_examples:
  "parseRecords exampleJsonParse arrayText = Inr [JObj [(''id'', JStr ''a''), (''t'', JNum 1)]]"
  "parseRecords exampleJsonParse twoObjectLines =
     Inr [JObj [(''id'', JStr ''a''), (''t'', JNum 1)], JObj [(''id'', JStr ''b''), (''t'', JNum 2)]]"
  "parseRecords exampleJsonParse [] = Inr []"
  by code_simp+

text \<open>
  Claim C7 does not hold of the code. A text that \<^verbatim>\<open>JSON.parse\<close> reads as one object,
  such as newline-delimited JSON of a single line, leaves the \<^verbatim>\<open>try\<close> block without
  a result and without an exception, so the fallback to lines is never tried and
  \<^verbatim>\<open>parseRecords\<close> throws \<^verbatim>\<open>Expected a JSON array or newline-delimited JSON objects\<close>.
\<close>

theorem single_object_text_rejected:
  "length (trim raw) > 0 \<Longrightarrow> jsonParse (trim raw) = Some (JObj es) \<Longrightarrow>
   parseRecords jsonParse raw = Inl ExpectedArrayOrNdjson"
  by (simp add: parseRecords_def)

theorem single_object_text_rejected_witness:
  "parseRecords exampleJsonParse singleObjectLine = Inl ExpectedArrayOrNdjson"
proof -
  have "trim singleObjectLine = singleObjectLine"
    by code_simp
  moreover have "exampleJsonParse singleObjectLine = Some (JObj [(''id'', JStr ''a''), (''t'', JNum 1)])"
    by code_simp
  moreover have "length singleObjectLine > 0"
    by code_simp
  ultimately show ?thesis
    using single_object_text_rejected [where raw = singleObjectLine and jsonParse = exampleJsonParse]
    by simp
qed

section \<open>Copies that drop keys\<close>

lemma foldl_obj_set_filter:
  "distinct (map fst acc @ map fst es) \<Longrightarrow>
   foldl (\<lambda>sanitized (key, value). if dropped key then sanitized else obj_set sanitized key (f value))
     acc es
   = acc @ map (\<lambda>(key, value). (key, f value)) (filter (\<lambda>(key, value). \<not> dropped key) es)"
proof (induction es arbitrary: acc)
  case Nil
  show ?case by simp
next
  case (Cons e es)
  obtain k v where e: "e = (k, v)" by (cases e)
  show ?case
  proof (cases "dropped k")
    case True
    with Cons.prems have "distinct (map fst acc @ map fst es)" by (simp add: e)
    from Cons.IH [OF this] True show ?thesis by (simp add: e)
  next
    case False
    from Cons.prems have absent: "obj_get acc k = None"
      by (auto simp: e obj_get_None_iff)
    from Cons.prems have "distinct (map fst (acc @ [(k, f v)]) @ map fst es)"
      by (auto simp: e)
    from Cons.IH [OF this] False show ?thesis
      by (simp add: e obj_set_absent [OF absent])
  qed
qed


lemma sanitizeRepositoryObject_filter:
  "distinct (map fst rec) \<Longrightarrow>
   sanitizeRepositoryObject rec = filter (\<lambda>(key, value). \<not> isInternalKey key) rec"
  using foldl_obj_set_filter [of "[]" rec isInternalKey cloneJsonValue]
  by (simp add: sanitizeRepositoryObject_def cloneJsonValue_def [abs_def] case_prod_unfold)

lemma removeFundingInternalKeys_filter:
  "distinct (map fst rec) \<Longrightarrow>
   removeFundingInternalKeys rec =
     filter (\<lambda>(key, value). \<not> (key = ''id'' \<or> key = ''project_id'')) rec"
  using foldl_obj_set_filter [of "[]" rec "\<lambda>key. key = ''id'' \<or> key = ''project_id''" cloneJsonValue]
  by (simp add: removeFundingInternalKeys_def cloneJsonValue_def [abs_def] case_prod_unfold)


section \<open>Two funding entries of one round\<close>







text \<open>
  Two entries of one round without \<^verbatim>\<open>updated_at\<close>: the comparison of the string forms
  reaches \<^verbatim>\<open>stableStringify(undefined)\<close> and throws.
\<close>

lemma undated_funding_entries_throw:
  "mergeFundingEntries exampleDateParse None [fundingUndated, fundingUndated'] = Inl TypeError"
  by code_simp

section \<open>Internal keys\<close>

lemma noInternalKeys_obj_set:
  "noInternalKeys obj \<Longrightarrow> \<not> isInternalKey k \<Longrightarrow> noInternalKeys (obj_set obj k v)"
  by (induction obj) (auto simp: noInternalKeys_def)

lemma noInternalKeys_foldl_guard:
  "noInternalKeys acc \<Longrightarrow>
   noInternalKeys (foldl (\<lambda>sanitized (key, value).
       if isInternalKey key then sanitized else obj_set sanitized key (f value)) acc es)"
  by (induction es arbitrary: acc) (auto simp: noInternalKeys_obj_set)

lemma noInternalKeys_sanitizeRepositoryObject: "noInternalKeys (sanitizeRepositoryObject value)"
  unfolding sanitizeRepositoryObject_def
  by (rule noInternalKeys_foldl_guard) (simp add: noInternalKeys_def)

lemma noInternalKeys_sanitizeFundingRecord: "noInternalKeys (sanitizeFundingRecord rec)"
  unfolding sanitizeFundingRecord_def
  by (rule noInternalKeys_foldl_guard) (simp add: noInternalKeys_def)

lemma noInternalKeys_removeFundingInternalKeys:
  "noInternalKeys rec \<Longrightarrow> noInternalKeys (removeFundingInternalKeys rec)"
proof -
  have "\<And>acc. noInternalKeys acc \<Longrightarrow> noInternalKeys rec \<Longrightarrow>
     noInternalKeys (foldl (\<lambda>sanitized (key, value).
       if key = ''id'' \<or> key = ''project_id'' then sanitized
       else obj_set sanitized key (cloneJsonValue value)) acc rec)"
  proof (induction rec)
    case Nil
    then show ?case by simp
  next
    case (Cons e rec)
    from Cons.prems(2) have e: "\<not> isInternalKey (fst e)" and r: "noInternalKeys rec"
      by (simp_all add: noInternalKeys_def)
    show ?case
      using Cons.IH [OF _ r] Cons.prems(1) e
      by (cases e) (auto simp: noInternalKeys_obj_set)
  qed
  then show "noInternalKeys rec \<Longrightarrow> noInternalKeys (removeFundingInternalKeys rec)"
    by (simp add: removeFundingInternalKeys_def noInternalKeys_def)
qed

subsection \<open>Merged records\<close>

lemma noInternalKeys_mergeEntries:
  "noInternalKeys merged \<Longrightarrow> noInternalKeys otherEntries \<Longrightarrow>
   noInternalKeys (mergeEntries merged otherEntries)"
  unfolding mergeEntries_def
proof (induction otherEntries arbitrary: merged)
  case Nil
  then show ?case by simp
next
  case (Cons e es)
  from Cons.prems(2) have e: "\<not> isInternalKey (fst e)" and r: "noInternalKeys es"
    by (simp_all add: noInternalKeys_def)
  show ?case
    using Cons.IH [OF _ r] Cons.prems(1) e
    by (cases e) (auto simp: noInternalKeys_obj_set)
qed

lemma extractStep_otherEntries:
  "noInternalKeys (snd (snd st)) \<Longrightarrow> noInternalKeys (snd (snd (extractStep st e)))"
  by (cases st; cases e) (auto simp: extractStep_def Let_def noInternalKeys_def)

lemma foldl_extractStep_otherEntries:
  "noInternalKeys (snd (snd st)) \<Longrightarrow> noInternalKeys (snd (snd (foldl extractStep st es)))"
  by (induction es arbitrary: st) (simp_all add: extractStep_otherEntries)

lemma noInternalKeys_otherEntries:
  "noInternalKeys (snd (extractRepositoryEntries rec))"
proof -
  have "noInternalKeys (snd (snd (foldl extractStep ([], [], []) rec)))"
    by (rule foldl_extractStep_otherEntries) (simp add: noInternalKeys_def)
  then show ?thesis
    by (auto simp: extractRepositoryEntries_def split: prod.splits)
qed

lemma mergeGroupStep_merged:
  "noInternalKeys (fst st) \<Longrightarrow> noInternalKeys (fst (mergeGroupStep st rec))"
  using noInternalKeys_otherEntries [of rec]
  by (auto simp: mergeGroupStep_def noInternalKeys_mergeEntries split: prod.splits)

lemma foldl_mergeGroupStep_merged:
  "noInternalKeys (fst st) \<Longrightarrow> noInternalKeys (fst (foldl mergeGroupStep st recs))"
  by (induction recs arbitrary: st) (simp_all add: mergeGroupStep_merged)

lemma repositories_not_internal: "\<not> isInternalKey ''repositories''"
  by (simp add: isInternalKey_def startsWith_def)

lemma noInternalKeys_mergeGroupRecords: "noInternalKeys (mergeGroupRecords recs)"
proof -
  have "noInternalKeys (fst (foldl mergeGroupStep ([], []) recs))"
    by (rule foldl_mergeGroupStep_merged) (simp add: noInternalKeys_def)
  then show ?thesis
    by (auto simp: mergeGroupRecords_def noInternalKeys_obj_set repositories_not_internal
          split: prod.splits)
qed

subsection \<open>Repository objects\<close>

lemma cleanStore_obj_set:
  "cleanStore m \<Longrightarrow> noInternalKeys v \<Longrightarrow> cleanStore (obj_set m k v)"
  using set_obj_set_subset [of m k v] by (auto simp: cleanStore_def)

lemma cleanStore_obj_get: "cleanStore m \<Longrightarrow> obj_get m k = Some v \<Longrightarrow> noInternalKeys v"
  by (auto simp: cleanStore_def obj_get_def dest!: map_of_SomeD)

lemma upsert_cleanStore: "cleanStore (fst st) \<Longrightarrow> cleanStore (fst (upsert st value))"
proof -
  assume c: "cleanStore (fst st)"
  have s: "noInternalKeys (sanitizeRepositoryObject (entriesOf value))"
    by (rule noInternalKeys_sanitizeRepositoryObject)
  have m: "\<And>existingRepo. noInternalKeys existingRepo \<Longrightarrow>
      noInternalKeys (foldl (\<lambda>repo (field, entry).
          obj_set repo field (mergeField (obj_get repo field) entry))
        existingRepo (sanitizeRepositoryObject (entriesOf value)))"
    using noInternalKeys_mergeEntries [OF _ s] by (simp add: mergeEntries_def)
  show ?thesis
    using c s
    by (auto simp: upsert_def Let_def cloneJsonObject_def cleanStore_obj_set
             intro!: cleanStore_obj_set m dest: cleanStore_obj_get split: option.splits)
qed

lemma foldl_upsert_cleanStore:
  "cleanStore (fst st) \<Longrightarrow> cleanStore (fst (foldl upsert st vs))"
  by (induction vs arbitrary: st) (simp_all add: upsert_cleanStore)

lemma cleanObjects_order:
  "cleanStore m \<Longrightarrow>
   cleanObjects (JArr (concat (map (\<lambda>key. case obj_get m key of
        Some repo \<Rightarrow> [JObj (cloneJsonObject repo)] | None \<Rightarrow> []) order)))"
  by (induction order)
     (auto simp: cleanObjects_def cloneJsonObject_def dest: cleanStore_obj_get split: option.splits)

lemma cleanObjects_mergeRepositories: "cleanObjects (mergeRepositories existing incoming)"
proof -
  have e: "cleanStore (fst (([], []) :: (string \<times> jobject) list \<times> string list))"
    by (simp add: cleanStore_def)
  have "cleanStore (fst (case existing of
                   None \<Rightarrow> ([], [])
                 | Some (JArr xs) \<Rightarrow> foldl upsert ([], []) xs
                 | Some v \<Rightarrow> upsert ([], []) v))"
    using e by (auto split: option.splits json.splits
                     intro: foldl_upsert_cleanStore upsert_cleanStore)
  then show ?thesis
    unfolding mergeRepositories_def Let_def
    by (intro cleanObjects_order foldl_upsert_cleanStore)
qed

lemma extractStep_no_repositories:
  "''repositories'' \<notin> fst ` set (snd (snd st)) \<Longrightarrow>
   ''repositories'' \<notin> fst ` set (snd (snd (extractStep st e)))"
  by (cases st; cases e) (auto simp: extractStep_def Let_def)

lemma otherEntries_no_repositories:
  "''repositories'' \<notin> fst ` set (snd (extractRepositoryEntries rec))"
proof -
  have "\<And>st. ''repositories'' \<notin> fst ` set (snd (snd st)) \<Longrightarrow>
      ''repositories'' \<notin> fst ` set (snd (snd (foldl extractStep st rec)))"
    by (induction rec) (simp_all add: extractStep_no_repositories)
  from this [of "([], [], [])"] show ?thesis
    by (auto simp: extractRepositoryEntries_def split: prod.splits)
qed

lemma keys_mergeEntries:
  "fst ` set (mergeEntries merged otherEntries) = fst ` set merged \<union> fst ` set otherEntries"
  unfolding mergeEntries_def
proof (induction otherEntries arbitrary: merged)
  case Nil
  show ?case by simp
next
  case (Cons e es)
  show ?case
    using set_keys_obj_set [of merged "fst e" "mergeField (obj_get merged (fst e)) (snd e)"]
    by (cases e) (auto simp: Cons.IH)
qed

lemma merged_no_repositories:
  "''repositories'' \<notin> fst ` set (fst st) \<Longrightarrow>
   ''repositories'' \<notin> fst ` set (fst (foldl mergeGroupStep st recs))"
proof (induction recs arbitrary: st)
  case Nil
  then show ?case by simp
next
  case (Cons r recs)
  have "''repositories'' \<notin> fst ` set (fst (mergeGroupStep st r))"
    using Cons.prems otherEntries_no_repositories [of r]
    by (auto simp: mergeGroupStep_def keys_mergeEntries split: prod.splits)
  from Cons.IH [OF this] show ?case by simp
qed

lemma repositories_of_mergeGroupRecords:
  "obj_get (mergeGroupRecords recs) ''repositories'' = Some v \<Longrightarrow> cleanObjects v"
proof -
  assume g: "obj_get (mergeGroupRecords recs) ''repositories'' = Some v"
  obtain merged acc where f: "foldl mergeGroupStep ([], []) recs = (merged, acc)"
    by (cases "foldl mergeGroupStep ([], []) recs")
  have "''repositories'' \<notin> fst ` set (fst (foldl mergeGroupStep ([], []) recs))"
    by (rule merged_no_repositories) simp
  then have none: "obj_get merged ''repositories'' = None"
    by (simp add: f obj_get_None_iff)
  show ?thesis
  proof (cases "length acc > 0")
    case True
    with g f have "v = mergeRepositories (obj_get merged ''repositories'') acc"
      by (simp add: mergeGroupRecords_def obj_get_obj_set)
    then show ?thesis by (simp add: cleanObjects_mergeRepositories)
  next
    case False
    with g f none show ?thesis by (simp add: mergeGroupRecords_def)
  qed
qed

subsection \<open>Funding entries\<close>

lemma pickLatestByUpdatedAt_choice:
  "pickLatestByUpdatedAt dateParse left right = Inr choice \<Longrightarrow> choice = left \<or> choice = right"
  by (auto simp: pickLatestByUpdatedAt_def split: option.splits sum.splits if_splits)

lemma addEntry_cleanStore:
  assumes "cleanStore seen" "addEntry dateParse seen value = Inr seen'"
  shows "cleanStore seen'"
proof -
  have s: "noInternalKeys (sanitizeFundingRecord (entriesOf value))"
    by (rule noInternalKeys_sanitizeFundingRecord)
  show ?thesis
    using assms s
    by (auto simp: addEntry_def Let_def split: if_splits option.splits sum.splits
             intro!: cleanStore_obj_set
             dest!: pickLatestByUpdatedAt_choice dest: cleanStore_obj_get)
qed

lemma addEntries_cleanStore:
  "cleanStore seen \<Longrightarrow> addEntries dateParse seen vs = Inr seen' \<Longrightarrow> cleanStore seen'"
proof (induction vs arbitrary: seen)
  case Nil
  then show ?case by simp
next
  case (Cons v vs)
  then show ?case
    by (auto split: sum.splits dest: addEntry_cleanStore)
qed

lemma mergeFundingEntries_clean:
  assumes "mergeFundingEntries dateParse existing incoming = Inr entries"
  shows "list_all noInternalKeys entries"
proof -
  have e: "cleanStore []" by (simp add: cleanStore_def)
  from assms obtain seen1 seen2 where
    s1: "(case existing of
              None \<Rightarrow> Inr []
            | Some (JArr xs) \<Rightarrow> addEntries dateParse [] xs
            | Some v \<Rightarrow> addEntry dateParse [] v) = Inr seen1"
    and s2: "addEntries dateParse seen1 (map JObj incoming) = Inr seen2"
    and r: "entries = map (\<lambda>e. removeFundingInternalKeys (snd e)) seen2"
    by (auto simp: mergeFundingEntries_def split: sum.splits)
  from s1 have c1: "cleanStore seen1"
    using e by (auto split: option.splits json.splits
                     dest: addEntries_cleanStore addEntry_cleanStore)
  have "cleanStore seen2" by (rule addEntries_cleanStore [OF c1 s2])
  then show ?thesis
    by (auto simp: r cleanStore_def list_all_iff noInternalKeys_removeFundingInternalKeys)
qed

lemma attachOne_clean:
  assumes "attachOne dateParse fundingById idField targetField rec = Inr rec'"
    and "obj_get rec' targetField = Some v"
  shows "rec' = rec \<or> cleanObjects v"
proof (cases "rec' = rec")
  case True
  then show ?thesis by simp
next
  case False
  with assms(1) obtain entries existing incoming where
    m: "mergeFundingEntries dateParse existing incoming = Inr entries"
    and r: "rec' = obj_set rec targetField (JArr (map JObj entries))"
    by (auto simp: attachOne_def split: option.splits if_splits sum.splits)
  from assms(2) have "v = JArr (map JObj entries)"
    by (simp add: r obj_get_obj_set)
  with mergeFundingEntries_clean [OF m] show ?thesis
    by (simp add: cleanObjects_def list_all_iff)
qed

lemma attachOne_keys:
  assumes "attachOne dateParse fundingById idField targetField rec = Inr rec'"
    and "noInternalKeys rec" "\<not> isInternalKey targetField"
  shows "noInternalKeys rec'"
  using assms
  by (auto simp: attachOne_def noInternalKeys_obj_set split: option.splits if_splits sum.splits)

section \<open>No internal key in the output\<close>

text \<open>
  Claim C10. No own key of a merged output record begins with \<^verbatim>\<open>_dlt\<close>; its
  \<^verbatim>\<open>repositories\<close>, when present, is a list of objects with no such key; and the funding
  entries that \<^verbatim>\<open>mergeFundingEntries\<close> returns, which \<^verbatim>\<open>attachFundingData\<close> writes
  into the record, have no such key, whatever keys the input records carry.
\<close>

theorem internal_keys_stripped:
  "(\<forall>r \<in> set (fst (collapseRecords dateParse recs idField metadataField)).
      noInternalKeys r \<and> (\<forall>v. obj_get r ''repositories'' = Some v \<longrightarrow> cleanObjects v))
   \<and> (\<forall>entries. mergeFundingEntries dateParse existing incoming = Inr entries
         \<longrightarrow> list_all noInternalKeys entries)
   \<and> (\<forall>rec' v. attachOne dateParse fundingById idField targetField rec = Inr rec'
         \<longrightarrow> noInternalKeys rec \<longrightarrow> \<not> isInternalKey targetField
         \<longrightarrow> noInternalKeys rec'
             \<and> (obj_get rec' targetField = Some v \<longrightarrow> rec' = rec \<or> cleanObjects v))"
proof (intro conjI ballI allI impI)
  fix r assume "r \<in> set (fst (collapseRecords dateParse recs idField metadataField))"
  then obtain g where r: "r = mergeGroupRecords g"
    by (auto simp: collapseRecords_def Let_def)
  show "noInternalKeys r" by (simp add: r noInternalKeys_mergeGroupRecords)
  fix v assume "obj_get r ''repositories'' = Some v"
  then show "cleanObjects v" by (simp add: r repositories_of_mergeGroupRecords)
next
  fix entries assume "mergeFundingEntries dateParse existing incoming = Inr entries"
  then show "list_all noInternalKeys entries" by (rule mergeFundingEntries_clean)
next
  fix rec' v
  assume a: "attachOne dateParse fundingById idField targetField rec = Inr rec'"
    and "noInternalKeys rec" "\<not> isInternalKey targetField"
  then show "noInternalKeys rec'" by (rule attachOne_keys)
  assume "obj_get rec' targetField = Some v"
  with a show "rec' = rec \<or> cleanObjects v" by (rule attachOne_clean)
qed

theorem internal_keys_stripped_witness:
  "fst (collapseRecords exampleDateParse [JObj loaderRecord] ''id'' ''t'') = [loaderMerged]
   \<and> noInternalKeys loaderMerged
   \<and> cleanObjects (JArr [JObj [(''url'', JStr ''u'')]])
   \<and> mergeFundingEntries exampleDateParse None [loaderFunding]
       = Inr [[(''round_id'', JStr ''7''), (''amount'', JNum 10)]]
   \<and> list_all noInternalKeys [[(''round_id'', JStr ''7''), (''amount'', JNum 10)]]
   \<and> attachOne exampleDateParse exampleFundingById ''id'' ''selfReportedFunding'' loaderMerged
       = Inr loaderAttached
   \<and> noInternalKeys loaderAttached
   \<and> cleanObjects (JArr [JObj [(''round_id'', JStr ''7''), (''amount'', JNum 10)]])"
proof -
  have run: "fst (collapseRecords exampleDateParse [JObj loaderRecord] ''id'' ''t'') = [loaderMerged]"
    "mergeFundingEntries exampleDateParse None [loaderFunding]
       = Inr [[(''round_id'', JStr ''7''), (''amount'', JNum 10)]]"
    "attachOne exampleDateParse exampleFundingById ''id'' ''selfReportedFunding'' loaderMerged
       = Inr loaderAttached"
    by code_simp+
  have get: "obj_get loaderMerged ''repositories'' = Some (JArr [JObj [(''url'', JStr ''u'')]])"
    "obj_get loaderAttached ''selfReportedFunding''
       = Some (JArr [JObj [(''round_id'', JStr ''7''), (''amount'', JNum 10)]])"
    "loaderAttached \<noteq> loaderMerged"
    "\<not> isInternalKey ''selfReportedFunding''"
    by code_simp+
  show ?thesis
    using internal_keys_stripped
      [where dateParse = exampleDateParse and recs = "[JObj loaderRecord]"
         and idField = "''id''" and metadataField = "''t''"
         and existing = None and incoming = "[loaderFunding]"
         and fundingById = exampleFundingById and targetField = "''selfReportedFunding''"
         and rec = loaderMerged]
    unfolding run by (simp add: get)
qed

section \<open>Repository objects from parallel fields\<close>

lemma foldl_obj_set_option:
  "distinct (map fst acc @ map fst es) \<Longrightarrow>
   foldl (\<lambda>repo (key, x). case g x of None \<Rightarrow> repo | Some v \<Rightarrow> obj_set repo key v) acc es
   = acc @ concat (map (\<lambda>e. case g (snd e) of None \<Rightarrow> [] | Some v \<Rightarrow> [(fst e, v)]) es)"
proof (induction es arbitrary: acc)
  case Nil
  show ?case by simp
next
  case (Cons e es)
  obtain k x where e: "e = (k, x)" by (cases e)
  show ?case
  proof (cases "g x")
    case None
    with Cons.prems have "distinct (map fst acc @ map fst es)" by (simp add: e)
    from Cons.IH [OF this] None show ?thesis by (simp add: e)
  next
    case (Some v)
    from Cons.prems have absent: "obj_get acc k = None"
      by (auto simp: e obj_get_None_iff)
    from Cons.prems have "distinct (map fst (acc @ [(k, v)]) @ map fst es)"
      by (auto simp: e)
    from Cons.IH [OF this] Some show ?thesis
      by (simp add: e obj_set_absent [OF absent])
  qed
qed

lemma foldl_normalize:
  "distinct (map fst acc @ map fst es) \<Longrightarrow>
   foldl (\<lambda>(normalized, maxLength) (key, value).
              let values = normalizeRepositoryValue value in
              if length values = 0 then (normalized, maxLength)
              else (obj_set normalized key values,
                    if length values > maxLength then length values else maxLength))
       (acc, m) es
   = (acc @ map (\<lambda>e. (fst e, normalizeRepositoryValue (snd e)))
              (filter (\<lambda>e. normalizeRepositoryValue (snd e) \<noteq> []) es),
      max m (longest (map (\<lambda>e. length (normalizeRepositoryValue (snd e))) es)))"
proof (induction es arbitrary: acc m)
  case Nil
  show ?case by (simp add: longest_def)
next
  case (Cons e es)
  obtain k x where e: "e = (k, x)" by (cases e)
  show ?case
  proof (cases "normalizeRepositoryValue x = []")
    case True
    with Cons.prems have "distinct (map fst acc @ map fst es)" by (simp add: e)
    from Cons.IH [OF this] True show ?thesis by (simp add: e longest_def)
  next
    case False
    from Cons.prems have absent: "obj_get acc k = None"
      by (auto simp: e obj_get_None_iff)
    from Cons.prems
    have d: "distinct (map fst (acc @ [(k, normalizeRepositoryValue x)]) @ map fst es)"
      by (auto simp: e)
    let ?step = "\<lambda>(normalized, maxLength) (key, value).
              let values = normalizeRepositoryValue value in
              if length values = 0 then (normalized, maxLength)
              else (obj_set normalized key values,
                    if length values > maxLength then length values else maxLength)"
    have step: "?step (acc, m) e =
        (acc @ [(k, normalizeRepositoryValue x)], max m (length (normalizeRepositoryValue x)))"
      using False by (simp add: e Let_def obj_set_absent [OF absent] max_def)
    have "foldl ?step (acc, m) (e # es) =
        foldl ?step (acc @ [(k, normalizeRepositoryValue x)],
                     max m (length (normalizeRepositoryValue x))) es"
      by (simp only: foldl_Cons step)
    also note Cons.IH [OF d]
    finally show ?thesis
      using False by (simp add: e longest_def max.assoc)
  qed
qed

lemma normalizeRepoFields_closed:
  "distinct (map fst repoFields) \<Longrightarrow>
   normalizeRepoFields repoFields =
     (map (\<lambda>e. (fst e, normalizeRepositoryValue (snd e)))
        (filter (\<lambda>e. normalizeRepositoryValue (snd e) \<noteq> []) repoFields),
      longest (map (\<lambda>e. length (normalizeRepositoryValue (snd e))) repoFields))"
  using foldl_normalize [of "[]" repoFields 0]
  by (simp add: normalizeRepoFields_def)

lemma normalizeRepositoryValue_no_null: "JNull \<notin> set (normalizeRepositoryValue v)"
  by (cases v) auto

lemma pickRepositoryValue_itemAt:
  "JNull \<notin> set vs \<Longrightarrow> pickRepositoryValue vs index = itemAt vs index"
proof (cases "index < length vs")
  case True
  assume "JNull \<notin> set vs"
  with True have "vs ! index \<noteq> JNull" by (metis nth_mem)
  with True show ?thesis by (simp add: pickRepositoryValue_def itemAt_def)
next
  case False
  then show ?thesis by (simp add: pickRepositoryValue_def itemAt_def)
qed

lemma buildRepositoryAt_closed:
  assumes "distinct (map fst normalized)" "\<forall>e \<in> set normalized. JNull \<notin> set (snd e)"
  shows "buildRepositoryAt normalized index =
     concat (map (\<lambda>e. case itemAt (snd e) index of None \<Rightarrow> [] | Some item \<Rightarrow> [(fst e, item)])
               normalized)"
proof -
  have "buildRepositoryAt normalized index =
     concat (map (\<lambda>e. case pickRepositoryValue (snd e) index of
                          None \<Rightarrow> [] | Some item \<Rightarrow> [(fst e, item)]) normalized)"
    using foldl_obj_set_option [of "[]" normalized "\<lambda>vs. pickRepositoryValue vs index"] assms(1)
    unfolding buildRepositoryAt_def cloneJsonValue_def by simp
  also have "\<dots> = concat (map (\<lambda>e. case itemAt (snd e) index of
                          None \<Rightarrow> [] | Some item \<Rightarrow> [(fst e, item)]) normalized)"
    using assms(2) by (intro arg_cong [where f = concat] map_cong refl)
                      (simp add: pickRepositoryValue_itemAt)
  finally show ?thesis .
qed

lemma buildRepositoryAt_spec:
  assumes "distinct (map fst repoFields)"
  shows "buildRepositoryAt
           (map (\<lambda>e. (fst e, normalizeRepositoryValue (snd e)))
              (filter (\<lambda>e. normalizeRepositoryValue (snd e) \<noteq> []) repoFields)) index
         = specRepositoryAt (dropEmptyItems repoFields) index"
proof -
  let ?n = "map (\<lambda>e. (fst e, normalizeRepositoryValue (snd e)))
              (filter (\<lambda>e. normalizeRepositoryValue (snd e) \<noteq> []) repoFields)"
  have d: "distinct (map fst ?n)"
    using assms by (simp add: comp_def distinct_map_filter)
  have n: "\<forall>e \<in> set ?n. JNull \<notin> set (snd e)"
    by (auto simp: normalizeRepositoryValue_no_null)
  show ?thesis
    unfolding buildRepositoryAt_closed [OF d n]
    by (simp add: specRepositoryAt_def dropEmptyItems_def comp_def cong: option.case_cong)
qed

lemma longest_witness: "i < longest ns \<Longrightarrow> \<exists>n \<in> set ns. i < n"
  by (induction ns) (auto simp: longest_def max_def split: if_splits)

lemma longest_drop_zero: "longest (filter (\<lambda>n. 0 < n) ns) = longest ns"
  by (induction ns) (auto simp: longest_def)

lemma longest_dropEmptyItems:
  "longest (map (\<lambda>e. length (fieldItems (snd e))) (dropEmptyItems repoFields))
     = longest (map (\<lambda>e. length (normalizeRepositoryValue (snd e))) repoFields)"
proof -
  have "map (\<lambda>e. length (fieldItems (snd e))) (dropEmptyItems repoFields)
          = filter (\<lambda>n. 0 < n) (map (\<lambda>e. length (normalizeRepositoryValue (snd e))) repoFields)"
    by (induction repoFields) (auto simp: dropEmptyItems_def)
  then show ?thesis by (simp add: longest_drop_zero)
qed

lemma specRepositoryAt_nonempty:
  assumes "index < longest (map (\<lambda>e. length (fieldItems (snd e))) repoFields)"
  shows "specRepositoryAt repoFields index \<noteq> []"
proof -
  from longest_witness [OF assms] obtain e where
    e: "e \<in> set repoFields" "index < length (fieldItems (snd e))"
    by auto
  then have "(fst e, fieldItems (snd e) ! index) \<in> set (specRepositoryAt repoFields index)"
    by (auto simp: specRepositoryAt_def itemAt_def intro!: bexI [of _ e])
  then show ?thesis by auto
qed

lemma foldl_push_nonempty:
  "\<forall>i \<in> set is. f i \<noteq> [] \<Longrightarrow>
   foldl (\<lambda>repositories index.
            let repository = f index in
            if length repository > 0 then repositories @ [repository] else repositories) acc is
   = acc @ map f is"
  by (induction "is" arbitrary: acc) (auto simp: Let_def)

lemma buildRepositoryObjects_spec:
  assumes "distinct (map fst repoFields)"
  shows "buildRepositoryObjects repoFields = specRepositoryZip (dropEmptyItems repoFields)"
proof -
  let ?n = "map (\<lambda>e. (fst e, normalizeRepositoryValue (snd e)))
              (filter (\<lambda>e. normalizeRepositoryValue (snd e) \<noteq> []) repoFields)"
  let ?m = "longest (map (\<lambda>e. length (normalizeRepositoryValue (snd e))) repoFields)"
  have at: "\<And>index. buildRepositoryAt ?n index = specRepositoryAt (dropEmptyItems repoFields) index"
    by (rule buildRepositoryAt_spec [OF assms])
  have ne: "\<forall>i \<in> set [0..<?m]. buildRepositoryAt ?n i \<noteq> []"
    using specRepositoryAt_nonempty [of _ "dropEmptyItems repoFields"]
    by (simp add: at longest_dropEmptyItems)
  have "buildRepositoryObjects repoFields = map (buildRepositoryAt ?n) [0..<?m]"
    using foldl_push_nonempty [OF ne, of "[]"]
    by (simp add: buildRepositoryObjects_def normalizeRepoFields_closed [OF assms])
  then show ?thesis
    by (simp add: specRepositoryZip_def longest_dropEmptyItems at)
qed

lemma concat_map_filter_empty:
  "(\<And>x. \<not> P x \<Longrightarrow> F x = []) \<Longrightarrow> concat (map F (filter P xs)) = concat (map F xs)"
  by (induction xs) auto

lemma normalizeRepositoryValue_fieldItems:
  "\<forall>x \<in> set (fieldItems v). \<not> isMeaningless x \<Longrightarrow> normalizeRepositoryValue v = fieldItems v"
  by (cases v) (auto simp: filter_id_conv)

lemma specRepositoryZip_dropEmptyItems:
  assumes "\<forall>e \<in> set repoFields. \<forall>x \<in> set (fieldItems (snd e)). \<not> isMeaningless x"
  shows "specRepositoryZip (dropEmptyItems repoFields) = specRepositoryZip repoFields"
proof -
  have nv: "\<forall>e \<in> set repoFields. normalizeRepositoryValue (snd e) = fieldItems (snd e)"
    using assms by (simp add: normalizeRepositoryValue_fieldItems)
  have at: "specRepositoryAt (dropEmptyItems repoFields) index
                      = specRepositoryAt repoFields index" for index
  proof -
    let ?F = "\<lambda>e. case itemAt (fieldItems (snd e)) index of
                     None \<Rightarrow> [] | Some item \<Rightarrow> [(fst e, item)]"
    have "specRepositoryAt (dropEmptyItems repoFields) index
            = concat (map ?F (filter (\<lambda>e. fieldItems (snd e) \<noteq> []) repoFields))"
      using nv
      by (simp add: specRepositoryAt_def dropEmptyItems_def comp_def cong: option.case_cong)
         (metis (mono_tags, lifting) filter_cong map_eq_conv mem_Collect_eq set_filter)
    also have "\<dots> = concat (map ?F repoFields)"
      by (rule concat_map_filter_empty) (simp add: itemAt_def)
    finally show ?thesis by (simp add: specRepositoryAt_def)
  qed
  have "longest (map (\<lambda>e. length (normalizeRepositoryValue (snd e))) repoFields)
          = longest (map (\<lambda>e. length (fieldItems (snd e))) repoFields)"
    using nv by (intro arg_cong [where f = longest] map_cong refl) simp
  then show ?thesis
    by (simp add: specRepositoryZip_def longest_dropEmptyItems at)
qed

lemma drop5_inj:
  "startsWith k ''repo_'' \<Longrightarrow> startsWith k' ''repo_'' \<Longrightarrow> drop 5 k = drop 5 k' \<Longrightarrow> k = k'"
proof -
  assume a: "startsWith k ''repo_''" "startsWith k' ''repo_''" "drop 5 k = drop 5 k'"
  from a(1,2) have "take (length ''repo_'') k = take (length ''repo_'') k'"
    unfolding startsWith_def by simp
  moreover have "length ''repo_'' = 5" by simp
  ultimately have "take 5 k = take 5 k'" by (simp only:)
  with a(3) show "k = k'" by (metis append_take_drop_id)
qed

lemma keys_repoFieldsOf_distinct:
  "distinct (map fst rec) \<Longrightarrow> distinct (map fst (repoFieldsOf rec))"
proof (induction rec)
  case Nil
  show ?case by (simp add: repoFieldsOf_def)
next
  case (Cons e rec)
  then have IH: "distinct (map fst (repoFieldsOf rec))" by simp
  show ?case
  proof (cases "isRepoField (fst e)")
    case False
    with IH show ?thesis by (simp add: repoFieldsOf_def)
  next
    case True
    have "drop 5 (fst e) \<notin> set (map fst (repoFieldsOf rec))"
    proof
      assume "drop 5 (fst e) \<in> set (map fst (repoFieldsOf rec))"
      then obtain e' where e': "e' \<in> set rec" "isRepoField (fst e')"
        "drop 5 (fst e') = drop 5 (fst e)"
        by (auto simp: repoFieldsOf_def)
      with True have "fst e' = fst e"
        by (auto simp: isRepoField_def intro: drop5_inj)
      with e'(1) Cons.prems show False by (auto simp: image_iff)
    qed
    with IH True show ?thesis by (simp add: repoFieldsOf_def)
  qed
qed

lemma foldl_extractStep:
  "distinct (map fst rf @ map fst (repoFieldsOf es)) \<Longrightarrow>
   foldl extractStep (rf, ro, oe) es =
     (rf @ repoFieldsOf es, ro @ repositoriesOf es, oe @ ordinaryFieldsOf es)"
proof (induction es arbitrary: rf ro oe)
  case Nil
  show ?case by (simp add: repoFieldsOf_def repositoriesOf_def ordinaryFieldsOf_def)
next
  case (Cons e es)
  obtain k v where e: "e = (k, v)" by (cases e)
  consider (internal) "isInternalKey k"
    | (repos) "\<not> isInternalKey k" "k = ''repositories''"
    | (repo) "isRepoField k"
    | (bare) "\<not> isInternalKey k" "k \<noteq> ''repositories''" "startsWith k ''repo_''"
        "\<not> length (drop 5 k) > 0"
    | (other) "isOrdinaryField k"
    unfolding isRepoField_def isOrdinaryField_def by blast
  then show ?case
  proof cases
    case internal
    then have s: "extractStep (rf, ro, oe) e = (rf, ro, oe)" by (simp add: extractStep_def e)
    have d: "distinct (map fst rf @ map fst (repoFieldsOf es))"
      using Cons.prems internal by (simp add: repoFieldsOf_def e isRepoField_def)
    from internal have "k \<noteq> ''repositories''"
      using repositories_not_internal by auto
    then show ?thesis
      using internal
      by (simp add: s Cons.IH [OF d])
         (simp add: repoFieldsOf_def repositoriesOf_def ordinaryFieldsOf_def e
            isRepoField_def isOrdinaryField_def)
  next
    case repos
    then have s: "extractStep (rf, ro, oe) e = (rf, ro @ normalizeRepositoryCollection v, oe)"
      by (simp add: extractStep_def e)
    have d: "distinct (map fst rf @ map fst (repoFieldsOf es))"
      using Cons.prems repos by (simp add: repoFieldsOf_def e isRepoField_def)
    show ?thesis
      using repos
      by (simp add: s Cons.IH [OF d])
         (simp add: repoFieldsOf_def repositoriesOf_def ordinaryFieldsOf_def e
            isRepoField_def isOrdinaryField_def)
  next
    case repo
    from Cons.prems repo have absent: "obj_get rf (drop 5 k) = None"
      by (auto simp: e repoFieldsOf_def obj_get_None_iff)
    from repo have s: "extractStep (rf, ro, oe) e = (rf @ [(drop 5 k, v)], ro, oe)"
      by (simp add: extractStep_def e isRepoField_def Let_def obj_set_absent [OF absent])
    have d: "distinct (map fst (rf @ [(drop 5 k, v)]) @ map fst (repoFieldsOf es))"
      using Cons.prems repo by (auto simp: repoFieldsOf_def e)
    show ?thesis
      using repo
      by (simp add: s Cons.IH [OF d])
         (simp add: repoFieldsOf_def repositoriesOf_def ordinaryFieldsOf_def e
            isRepoField_def isOrdinaryField_def)
  next
    case bare
    then have s: "extractStep (rf, ro, oe) e = (rf, ro, oe)"
      by (simp add: extractStep_def e Let_def)
    have d: "distinct (map fst rf @ map fst (repoFieldsOf es))"
      using Cons.prems bare by (simp add: repoFieldsOf_def e isRepoField_def)
    show ?thesis
      using bare
      by (simp add: s Cons.IH [OF d])
         (simp add: repoFieldsOf_def repositoriesOf_def ordinaryFieldsOf_def e
            isRepoField_def isOrdinaryField_def)
  next
    case other
    then have s: "extractStep (rf, ro, oe) e = (rf, ro, oe @ [(k, v)])"
      by (simp add: extractStep_def e isOrdinaryField_def)
    have d: "distinct (map fst rf @ map fst (repoFieldsOf es))"
      using Cons.prems other by (simp add: repoFieldsOf_def e isRepoField_def isOrdinaryField_def)
    show ?thesis
      using other
      by (simp add: s Cons.IH [OF d])
         (simp add: repoFieldsOf_def repositoriesOf_def ordinaryFieldsOf_def e
            isRepoField_def isOrdinaryField_def)
  qed
qed

lemma extractRepositoryEntries_closed:
  assumes "distinct (map fst rec)"
  shows "extractRepositoryEntries rec =
     (repositoriesOf rec @ buildRepositoryObjects (repoFieldsOf rec), ordinaryFieldsOf rec)"
  using foldl_extractStep [of "[]" rec "[]" "[]"] keys_repoFieldsOf_distinct [OF assms]
  by (simp add: extractRepositoryEntries_def)

text \<open>
  Claim C6, as amended. The \<^verbatim>\<open>repo_<attribute>\<close> fields of a record are zipped
  positionally after the null and blank items of each field have been dropped (later items
  move forward) and the fields left without items set aside: one object per position up to
  the length of the longest field, a field with a single item giving it to every
  position. For fields without null or blank items this is the positional zip of the
  fields as they stand. The record with \<^verbatim>\<open>repo_url: ["u1","u2"]\<close> and
  \<^verbatim>\<open>repo_stars: 5\<close> gives exactly the two objects of the claim.
\<close>

theorem repository_fields_zipped:
  assumes "distinct (map fst rec)"
  shows "fst (extractRepositoryEntries rec)
           = repositoriesOf rec @ specRepositoryZip (dropEmptyItems (repoFieldsOf rec))
       \<and> ((\<forall>e \<in> set (repoFieldsOf rec). \<forall>x \<in> set (fieldItems (snd e)). \<not> isMeaningless x)
            \<longrightarrow> fst (extractRepositoryEntries rec)
                  = repositoriesOf rec @ specRepositoryZip (repoFieldsOf rec))
       \<and> length (specRepositoryZip (dropEmptyItems (repoFieldsOf rec)))
           = longest (map (\<lambda>e. length (normalizeRepositoryValue (snd e))) (repoFieldsOf rec))
       \<and> extractRepositoryEntries zipExample
           = ([[(''url'', JStr ''u1''), (''stars'', JNum 5)],
               [(''url'', JStr ''u2''), (''stars'', JNum 5)]], [])"
proof -
  have d: "distinct (map fst (repoFieldsOf rec))"
    by (rule keys_repoFieldsOf_distinct [OF assms])
  have one: "fst (extractRepositoryEntries rec)
           = repositoriesOf rec @ specRepositoryZip (dropEmptyItems (repoFieldsOf rec))"
    by (simp add: extractRepositoryEntries_closed [OF assms] buildRepositoryObjects_spec [OF d])
  have three: "length (specRepositoryZip (dropEmptyItems (repoFieldsOf rec)))
           = longest (map (\<lambda>e. length (normalizeRepositoryValue (snd e))) (repoFieldsOf rec))"
    by (simp add: specRepositoryZip_def longest_dropEmptyItems)
  have four: "extractRepositoryEntries zipExample
           = ([[(''url'', JStr ''u1''), (''stars'', JNum 5)],
               [(''url'', JStr ''u2''), (''stars'', JNum 5)]], [])"
    by code_simp
  show ?thesis
    using one three four by (simp add: specRepositoryZip_dropEmptyItems)
qed

theorem repository_fields_zipped_witness:
  "fst (extractRepositoryEntries zipExample)
     = [[(''url'', JStr ''u1''), (''stars'', JNum 5)], [(''url'', JStr ''u2''), (''stars'', JNum 5)]]
   \<and> specRepositoryZip (repoFieldsOf zipExample)
     = [[(''url'', JStr ''u1''), (''stars'', JNum 5)], [(''url'', JStr ''u2''), (''stars'', JNum 5)]]
   \<and> length (specRepositoryZip (dropEmptyItems (repoFieldsOf zipExample))) = 2"
proof -
  have d: "distinct (map fst zipExample)"
    by code_simp
  have v: "repositoriesOf zipExample = []"
    "specRepositoryZip (repoFieldsOf zipExample)
     = [[(''url'', JStr ''u1''), (''stars'', JNum 5)], [(''url'', JStr ''u2''), (''stars'', JNum 5)]]"
    "longest (map (\<lambda>e. length (normalizeRepositoryValue (snd e))) (repoFieldsOf zipExample)) = 2"
    by code_simp+
  show ?thesis
    using repository_fields_zipped [OF d] by (simp add: v)
qed

text \<open>
  The claim as stated fails where a field has a \<^verbatim>\<open>null\<close> item: the third URL is paired
  with the second star count, and the result is not the positional zip of the fields.
\<close>

theorem repository_zip_counterexample:
  "fst (extractRepositoryEntries zipWithNull)
     = [[(''url'', JStr ''u1''), (''stars'', JNum 1)],
        [(''url'', JStr ''u3''), (''stars'', JNum 2)],
        [(''stars'', JNum 3)]]
   \<and> specRepositoryZip (repoFieldsOf zipWithNull)
     = [[(''url'', JStr ''u1''), (''stars'', JNum 1)],
        [(''url'', JNull), (''stars'', JNum 2)],
        [(''url'', JStr ''u3''), (''stars'', JNum 3)]]
   \<and> fst (extractRepositoryEntries zipWithNull) \<noteq> specRepositoryZip (repoFieldsOf zipWithNull)"
  by code_simp

section \<open>Merging the values of a field\<close>















subsection \<open>The fields of a merged record\<close>









section \<open>The order of freshness\<close>

lemma str_less_irrefl: "\<not> str_less a a"
  by (induction a) auto

lemma str_less_asym: "str_less a b \<Longrightarrow> \<not> str_less b a"
  by (induction a b rule: str_less.induct) auto

lemma str_less_total: "str_less a b \<or> a = b \<or> str_less b a"
proof (induction a b rule: str_less.induct)
  case (4 x xs y ys)
  have "(of_char x :: nat) < of_char y \<or> x = y \<or> (of_char y :: nat) < of_char x"
    by (metis linorder_less_linear of_char_eq_iff)
  with 4 show ?case by auto
qed auto

lemma str_less_trans: "str_less a b \<Longrightarrow> str_less b c \<Longrightarrow> str_less a c"
proof (induction a b arbitrary: c rule: str_less.induct)
  case (4 x xs y ys)
  then show ?case by (cases c) (auto intro: less_trans)
qed (auto elim: str_less.elims)

lemma compareMetadata_refl: "compareMetadata dateParse a a = 0"
  by (simp add: compareMetadata_def split: option.splits)

lemma compareMetadata_antisym:
  "compareMetadata dateParse a b = - compareMetadata dateParse b a"
  using str_less_total [of "toComparableString a" "toComparableString b"]
        str_less_asym [of "toComparableString a" "toComparableString b"]
  by (auto simp: compareMetadata_def split: option.splits)

lemma compareMetadata_range:
  "compareMetadata dateParse a b = 1 \<or> compareMetadata dateParse a b = 0
   \<or> compareMetadata dateParse a b = - 1"
  by (auto simp: compareMetadata_def split: option.splits)

lemma consistentOrder_trans:
  assumes "consistentOrder dateParse ms" "a \<in> set ms" "b \<in> set ms" "c \<in> set ms"
    and "0 \<le> compareMetadata dateParse a b" "0 \<le> compareMetadata dateParse b c"
  shows "0 \<le> compareMetadata dateParse a c"
  using assms unfolding consistentOrder_def list_all_iff by blast

lemma consistentOrder_strict_left:
  assumes "consistentOrder dateParse ms" "a \<in> set ms" "b \<in> set ms" "c \<in> set ms"
    and "0 < compareMetadata dateParse a b" "0 \<le> compareMetadata dateParse b c"
  shows "0 < compareMetadata dateParse a c"
proof (rule ccontr)
  assume "\<not> 0 < compareMetadata dateParse a c"
  then have "0 \<le> compareMetadata dateParse c a"
    using compareMetadata_antisym [of dateParse a c] by simp
  with assms(6) have "0 \<le> compareMetadata dateParse b a"
    by (rule consistentOrder_trans [OF assms(1,3,4,2)])
  with assms(5) show False
    using compareMetadata_antisym [of dateParse a b] by simp
qed

lemma consistentOrder_strict_right:
  assumes "consistentOrder dateParse ms" "a \<in> set ms" "b \<in> set ms" "c \<in> set ms"
    and "0 \<le> compareMetadata dateParse a b" "0 < compareMetadata dateParse b c"
  shows "0 < compareMetadata dateParse a c"
proof (rule ccontr)
  assume "\<not> 0 < compareMetadata dateParse a c"
  then have "0 \<le> compareMetadata dateParse c a"
    using compareMetadata_antisym [of dateParse a c] by simp
  from this assms(5) have "0 \<le> compareMetadata dateParse c b"
    by (rule consistentOrder_trans [OF assms(1,4,2,3)])
  with assms(6) show False
    using compareMetadata_antisym [of dateParse b c] by simp
qed

lemma consistentOrder_sublist:
  "consistentOrder dateParse ms \<Longrightarrow> set ms' \<subseteq> set ms \<Longrightarrow> consistentOrder dateParse ms'"
  unfolding consistentOrder_def list_all_iff by (meson subsetD)

section \<open>The records that survive\<close>

lemma isOlder_iff:
  "isOlder dateParse metadataField rs r \<longleftrightarrow>
     (\<exists>r' \<in> set rs. 0 < compareMetadata dateParse (freshnessOf metadataField r')
                                (freshnessOf metadataField r))"
  by (simp add: isOlder_def list_ex_iff)

lemma not_older_ge:
  "\<not> isOlder dateParse metadataField rs r \<Longrightarrow> r' \<in> set rs \<Longrightarrow>
   0 \<le> compareMetadata dateParse (freshnessOf metadataField r) (freshnessOf metadataField r')"
  using compareMetadata_antisym [of dateParse "freshnessOf metadataField r" "freshnessOf metadataField r'"]
  by (auto simp: isOlder_iff)

text \<open>How the survivors of a list change when a record is added at its end.\<close>

lemma survivors_snoc:
  fixes dateParse metadataField
  defines "cmp \<equiv> \<lambda>x y. compareMetadata dateParse (freshnessOf metadataField x)
                                (freshnessOf metadataField y)"
  defines "sv \<equiv> \<lambda>rs. filter (\<lambda>x. \<not> isOlder dateParse metadataField rs x) rs"
  assumes cons: "consistentOrder dateParse (map (freshnessOf metadataField) (rs @ [r]))"
    and s: "s \<in> set (sv rs)"
  shows "sv (rs @ [r]) =
     (if 0 < cmp r s then [r] else if cmp r s = 0 then sv rs @ [r] else sv rs)"
proof -
  let ?ms = "map (freshnessOf metadataField) (rs @ [r])"
  have mem: "\<And>x. x \<in> set rs \<Longrightarrow> freshnessOf metadataField x \<in> set ?ms"
    "freshnessOf metadataField r \<in> set ?ms"
    by auto
  from s have s_in: "s \<in> set rs" and s_max: "\<not> isOlder dateParse metadataField rs s"
    by (simp_all add: sv_def)
  have s_ge: "\<And>x. x \<in> set rs \<Longrightarrow> 0 \<le> cmp s x"
    unfolding cmp_def by (rule not_older_ge [OF s_max])
  have older_snoc: "\<And>x. isOlder dateParse metadataField (rs @ [r]) x \<longleftrightarrow>
       isOlder dateParse metadataField rs x \<or> 0 < cmp r x"
    by (auto simp: isOlder_iff cmp_def)
  have rr: "\<not> 0 < cmp r r"
    by (simp add: cmp_def compareMetadata_refl)
  consider (gt) "0 < cmp r s" | (eq) "cmp r s = 0" | (lt) "cmp r s < 0"
    by linarith
  then show ?thesis
  proof cases
    case gt
    have all: "\<And>x. x \<in> set rs \<Longrightarrow> 0 < cmp r x"
      unfolding cmp_def
      using consistentOrder_strict_left [OF cons mem(2) mem(1) [OF s_in] mem(1)] gt s_ge
      by (simp add: cmp_def)
    have r_keeps: "\<not> isOlder dateParse metadataField rs r"
    proof
      assume "isOlder dateParse metadataField rs r"
      then obtain x where x: "x \<in> set rs" "0 < cmp x r"
        by (auto simp: isOlder_iff cmp_def)
      with all [OF x(1)] show False
        using compareMetadata_antisym [of dateParse "freshnessOf metadataField x"
                "freshnessOf metadataField r"]
        by (simp add: cmp_def)
    qed
    have "filter (\<lambda>x. \<not> isOlder dateParse metadataField (rs @ [r]) x) rs = []"
      by (simp add: filter_empty_conv older_snoc all)
    with gt r_keeps rr show ?thesis
      by (simp add: sv_def older_snoc)
  next
    case eq
    have keep: "\<And>x. x \<in> set rs \<Longrightarrow> \<not> isOlder dateParse metadataField rs x
                  \<Longrightarrow> \<not> 0 < cmp r x"
    proof
      fix x assume x: "x \<in> set rs" "\<not> isOlder dateParse metadataField rs x" "0 < cmp r x"
      have "0 \<le> cmp x s" unfolding cmp_def by (rule not_older_ge [OF x(2) s_in])
      moreover have "0 \<le> cmp s r"
        using eq compareMetadata_antisym [of dateParse "freshnessOf metadataField s"
                "freshnessOf metadataField r"]
        by (simp add: cmp_def)
      ultimately have "0 \<le> cmp x r"
        unfolding cmp_def
        by (rule consistentOrder_trans [OF cons mem(1) [OF x(1)] mem(1) [OF s_in] mem(2)])
      with x(3) show False
        using compareMetadata_antisym [of dateParse "freshnessOf metadataField x"
                "freshnessOf metadataField r"]
        by (simp add: cmp_def)
    qed
    have r_keeps: "\<not> isOlder dateParse metadataField rs r"
    proof
      assume "isOlder dateParse metadataField rs r"
      then obtain x where x: "x \<in> set rs" "0 < cmp x r"
        by (auto simp: isOlder_iff cmp_def)
      have "0 \<le> cmp r s" using eq by simp
      from this s_ge [OF x(1)] have "0 \<le> cmp r x"
        unfolding cmp_def
        by (rule consistentOrder_trans [OF cons mem(2) mem(1) [OF s_in] mem(1) [OF x(1)]])
      with x(2) show False
        using compareMetadata_antisym [of dateParse "freshnessOf metadataField x"
                "freshnessOf metadataField r"]
        by (simp add: cmp_def)
    qed
    have "filter (\<lambda>x. \<not> isOlder dateParse metadataField (rs @ [r]) x) rs = sv rs"
      unfolding sv_def
      by (rule filter_cong [OF refl]) (auto simp: older_snoc dest: keep)
    with eq r_keeps rr show ?thesis
      by (simp add: sv_def older_snoc)
  next
    case lt
    have sr: "0 < cmp s r"
      using lt compareMetadata_antisym [of dateParse "freshnessOf metadataField s"
                "freshnessOf metadataField r"]
      by (simp add: cmp_def)
    have keep: "\<And>x. x \<in> set rs \<Longrightarrow> \<not> isOlder dateParse metadataField rs x
                  \<Longrightarrow> \<not> 0 < cmp r x"
    proof
      fix x assume x: "x \<in> set rs" "\<not> isOlder dateParse metadataField rs x" "0 < cmp r x"
      have "0 \<le> cmp x s" unfolding cmp_def by (rule not_older_ge [OF x(2) s_in])
      from this sr have "0 < cmp x r"
        unfolding cmp_def
        by (rule consistentOrder_strict_right [OF cons mem(1) [OF x(1)] mem(1) [OF s_in] mem(2)])
      with x(3) show False
        using compareMetadata_antisym [of dateParse "freshnessOf metadataField x"
                "freshnessOf metadataField r"]
        by (simp add: cmp_def)
    qed
    have r_out: "isOlder dateParse metadataField rs r"
      using s_in sr by (auto simp: isOlder_iff cmp_def)
    have "filter (\<lambda>x. \<not> isOlder dateParse metadataField (rs @ [r]) x) rs = sv rs"
      unfolding sv_def
      by (rule filter_cong [OF refl]) (auto simp: older_snoc dest: keep)
    with lt r_out show ?thesis
      by (simp add: sv_def older_snoc)
  qed
qed

section \<open>The group of an identity\<close>

lemma usable_shape:
  assumes "usable idField metadataField r"
  obtains es idValue where "r = JObj es" "obj_get es idField = Some idValue"
    "obj_get es metadataField = Some (freshnessOf metadataField r)"
    "\<not> isMeaninglessMetadata (freshnessOf metadataField r)"
    "recordKey idField r = buildIdKey idValue"
  using assms
  by (cases r)
     (auto simp: usable_def missesIdentity_def missesFreshness_def freshnessOf_def recordKey_def
           split: option.splits)

lemma collapseStep_at_key:
  assumes "usable idField metadataField r"
  shows "obj_get (byId (collapseStep dateParse idField metadataField st r)) (recordKey idField r) =
     Some (case obj_get (byId st) (recordKey idField r) of
             None \<Rightarrow> \<lparr>metadata = freshnessOf metadataField r, records = [entriesOf r]\<rparr>
           | Some g \<Rightarrow>
               if 0 < compareMetadata dateParse (freshnessOf metadataField r) (metadata g)
                 then \<lparr>metadata = freshnessOf metadataField r, records = [entriesOf r]\<rparr>
               else if compareMetadata dateParse (freshnessOf metadataField r) (metadata g) = 0
                 then g\<lparr>records := records g @ [entriesOf r]\<rparr>
               else g)"
proof -
  from assms obtain es idValue where r: "r = JObj es" "obj_get es idField = Some idValue"
    "obj_get es metadataField = Some (freshnessOf metadataField r)"
    "\<not> isMeaninglessMetadata (freshnessOf metadataField r)"
    "recordKey idField r = buildIdKey idValue"
    by (rule usable_shape)
  show ?thesis
    unfolding r(5)
    using r(2,3,4)
    by (simp add: r(1) collapseStep_def Let_def obj_get_obj_set split: option.splits)
qed

lemma collapseStep_other_key:
  assumes "\<not> (usable idField metadataField r \<and> recordKey idField r = k)"
  shows "obj_get (byId (collapseStep dateParse idField metadataField st r)) k
           = obj_get (byId st) k"
proof (cases "usable idField metadataField r")
  case False
  then show ?thesis by (simp add: collapseStep_defective_groups)
next
  case True
  with assms have k: "recordKey idField r \<noteq> k" by simp
  from True obtain es idValue where r: "r = JObj es" "obj_get es idField = Some idValue"
    "obj_get es metadataField = Some (freshnessOf metadataField r)"
    "\<not> isMeaninglessMetadata (freshnessOf metadataField r)"
    "recordKey idField r = buildIdKey idValue"
    by (rule usable_shape)
  from k r(5) have "buildIdKey idValue \<noteq> k" by simp
  then show ?thesis
    using r(2,3,4)
    by (simp add: r(1) collapseStep_def Let_def obj_get_obj_set split: option.splits)
qed

lemma collapseLoop_snoc:
  "collapseLoop dateParse idField metadataField (recs @ [r]) =
     collapseStep dateParse idField metadataField
       (collapseLoop dateParse idField metadataField recs) r"
  by (simp add: collapseLoop_def)

lemma survivors_nonempty_head:
  "survivors dateParse idField metadataField k recs = s # ss \<Longrightarrow>
   s \<in> set (filter (\<lambda>x. \<not> isOlder dateParse metadataField
                     (ofIdentity idField metadataField k recs) x)
              (ofIdentity idField metadataField k recs))"
  by (simp add: survivors_def)

lemma collapseLoop_group:
  assumes "consistentOrder dateParse
             (map (freshnessOf metadataField) (ofIdentity idField metadataField k recs))"
  shows "obj_get (byId (collapseLoop dateParse idField metadataField recs)) k =
      (case survivors dateParse idField metadataField k recs of
         [] \<Rightarrow> None
       | s # ss \<Rightarrow> Some \<lparr>metadata = freshnessOf metadataField s,
                            records = map entriesOf (s # ss)\<rparr>)
     \<and> (ofIdentity idField metadataField k recs \<noteq> []
          \<longrightarrow> survivors dateParse idField metadataField k recs \<noteq> [])"
  using assms
proof (induction recs rule: rev_induct)
  case Nil
  show ?case
    by (simp add: collapseLoop_def survivors_def ofIdentity_def obj_get_def)
next
  case (snoc r recs)
  let ?O = "ofIdentity idField metadataField k recs"
  let ?S = "survivors dateParse idField metadataField k recs"
  let ?st = "collapseLoop dateParse idField metadataField recs"
  show ?case
  proof (cases "usable idField metadataField r \<and> recordKey idField r = k")
    case False
    then have O: "ofIdentity idField metadataField k (recs @ [r]) = ?O"
      by (auto simp: ofIdentity_def)
    then have S: "survivors dateParse idField metadataField k (recs @ [r]) = ?S"
      by (simp add: survivors_def)
    from snoc.prems have "consistentOrder dateParse (map (freshnessOf metadataField) ?O)"
      by (simp add: O)
    from snoc.IH [OF this] show ?thesis
      by (simp add: O S collapseLoop_snoc collapseStep_other_key [OF False])
  next
    case True
    then have u: "usable idField metadataField r" and kr: "recordKey idField r = k"
      by simp_all
    have O: "ofIdentity idField metadataField k (recs @ [r]) = ?O @ [r]"
      using True by (simp add: ofIdentity_def)
    from snoc.prems have cons': "consistentOrder dateParse
        (map (freshnessOf metadataField) (?O @ [r]))"
      by (simp add: O)
    then have "consistentOrder dateParse (map (freshnessOf metadataField) ?O)"
      by (rule consistentOrder_sublist) auto
    from snoc.IH [OF this]
    have IH1: "obj_get (byId ?st) k =
      (case ?S of [] \<Rightarrow> None
       | s # ss \<Rightarrow> Some \<lparr>metadata = freshnessOf metadataField s,
                            records = map entriesOf (s # ss)\<rparr>)"
      and IH2: "?O \<noteq> [] \<longrightarrow> ?S \<noteq> []"
      by simp_all
    have S': "survivors dateParse idField metadataField k (recs @ [r]) =
        filter (\<lambda>x. \<not> isOlder dateParse metadataField (?O @ [r]) x) (?O @ [r])"
      by (simp add: survivors_def O)
    have step: "obj_get (byId (collapseLoop dateParse idField metadataField (recs @ [r]))) k =
       Some (case obj_get (byId ?st) k of
             None \<Rightarrow> \<lparr>metadata = freshnessOf metadataField r, records = [entriesOf r]\<rparr>
           | Some g \<Rightarrow>
               if 0 < compareMetadata dateParse (freshnessOf metadataField r) (metadata g)
                 then \<lparr>metadata = freshnessOf metadataField r, records = [entriesOf r]\<rparr>
               else if compareMetadata dateParse (freshnessOf metadataField r) (metadata g) = 0
                 then g\<lparr>records := records g @ [entriesOf r]\<rparr>
               else g)"
      using collapseStep_at_key [OF u, of dateParse ?st] by (simp add: collapseLoop_snoc kr)
    show ?thesis
    proof (cases ?S)
      case Nil
      with IH2 have On: "?O = []" by auto
      have "survivors dateParse idField metadataField k (recs @ [r]) = [r]"
        by (simp add: S' On isOlder_iff compareMetadata_refl)
      with Nil IH1 show ?thesis
        by (simp add: step O)
    next
      case (Cons s ss)
      then have s: "s \<in> set (filter (\<lambda>x. \<not> isOlder dateParse metadataField ?O x) ?O)"
        by (rule survivors_nonempty_head)
      have Sdef: "filter (\<lambda>x. \<not> isOlder dateParse metadataField ?O x) ?O = s # ss"
        using Cons by (simp add: survivors_def)
      note sn = survivors_snoc [OF cons' s]
      from Cons IH1 have g: "obj_get (byId ?st) k =
          Some \<lparr>metadata = freshnessOf metadataField s, records = map entriesOf (s # ss)\<rparr>"
        by simp
      show ?thesis
        unfolding step g S' sn Sdef
        by (simp add: O)
    qed
  qed
qed

lemma distinct_keys_collapseStep:
  "distinct (map fst (byId st)) \<Longrightarrow>
   distinct (map fst (byId (collapseStep dateParse idField metadataField st r)))"
  by (auto simp: collapseStep_def Let_def keys_obj_set obj_get_None_iff
           split: json.splits option.splits)

lemma distinct_keys_collapseLoop:
  "distinct (map fst (byId (collapseLoop dateParse idField metadataField recs)))"
proof -
  have "\<And>st. distinct (map fst (byId st)) \<Longrightarrow>
      distinct (map fst (byId (foldl (collapseStep dateParse idField metadataField) st recs)))"
    by (induction recs) (simp_all add: distinct_keys_collapseStep)
  then show ?thesis by (simp add: collapseLoop_def)
qed

lemma obj_get_own_entries:
  "distinct (map fst m) \<Longrightarrow> map (\<lambda>e. obj_get m (fst e)) m = map (\<lambda>e. Some (snd e)) m"
  by (rule map_cong [OF refl]) (simp add: obj_get_def)

lemma collapsed_mergedFor:
  "map Some (fst (collapseRecords dateParse recs idField metadataField)) =
     map (mergedFor dateParse recs idField metadataField)
       (map fst (byId (collapseLoop dateParse idField metadataField recs)))"
proof -
  let ?m = "byId (collapseLoop dateParse idField metadataField recs)"
  have mf: "\<And>k. mergedFor dateParse recs idField metadataField k
                 = map_option (\<lambda>g. mergeGroupRecords (records g)) (obj_get ?m k)"
    by (simp add: mergedFor_def split: option.splits)
  have "map (mergedFor dateParse recs idField metadataField) (map fst ?m)
          = map (\<lambda>e. map_option (\<lambda>g. mergeGroupRecords (records g)) (obj_get ?m (fst e))) ?m"
    by (simp add: mf comp_def)
  also have "\<dots> = map (map_option (\<lambda>g. mergeGroupRecords (records g)))
                       (map (\<lambda>e. obj_get ?m (fst e)) ?m)"
    by simp
  also have "\<dots> = map (\<lambda>e. Some (mergeGroupRecords (records (snd e)))) ?m"
    by (simp add: obj_get_own_entries [OF distinct_keys_collapseLoop])
  finally show ?thesis
    by (simp add: collapseRecords_def Let_def comp_def)
qed

lemma length_by_defect:
  "length recs =
     length (filter (usable idField metadataField) recs)
       + length (filter (missesIdentity idField) recs)
       + length (filter (\<lambda>r. \<not> missesIdentity idField r \<and> missesFreshness metadataField r) recs)"
  by (induction recs) (auto simp: usable_def)

lemma older_and_used:
  "olderRecordsSkipped (snd (collapseRecords dateParse recs idField metadataField))
     + usedRecords (snd (collapseRecords dateParse recs idField metadataField))
   = int (length (filter (usable idField metadataField) recs))"
proof -
  let ?st = "collapseLoop dateParse idField metadataField recs"
  have acc: "groupSizes (byId ?st) + st_missingId ?st + st_missingMetadata ?st
               + st_olderRecordsSkipped ?st = length recs"
    using foldl_collapseStep_accounting
      [of dateParse idField metadataField
          "\<lparr>byId = [], st_missingId = 0, st_missingMetadata = 0, st_olderRecordsSkipped = 0\<rparr>" recs]
    by (simp add: collapseLoop_def groupSizes_def)
  have mi: "st_missingId ?st = length (filter (missesIdentity idField) recs)"
    by (simp add: collapseLoop_def foldl_collapseStep_missingId)
  have mm: "st_missingMetadata ?st =
      length (filter (\<lambda>r. \<not> missesIdentity idField r \<and> missesFreshness metadataField r) recs)"
    by (simp add: collapseLoop_def foldl_collapseStep_missingMetadata)
  from acc mi mm length_by_defect [of recs idField metadataField]
  have "st_olderRecordsSkipped ?st + groupSizes (byId ?st)
          = length (filter (usable idField metadataField) recs)"
    by simp
  then have "int (st_olderRecordsSkipped ?st) + int (groupSizes (byId ?st))
          = int (length (filter (usable idField metadataField) recs))"
    by (metis of_nat_add)
  then show ?thesis
    by (simp add: collapseRecords_def Let_def usedRecords_groupSizes)
qed

text \<open>
  Claim C1, as amended. Where the comparison is transitive on the freshness values of the
  records of an identity (as it is when there are two of them, when all of them are
  timestamps, or when none is), the merged output record of the identity is the merge of
  exactly those of its records that no record of the identity is strictly fresher than: a
  strictly older record contributes nothing. The output list holds the merged record of
  each identity, in the order of the groups. Every usable record that is in no final group
  is counted once in \<^verbatim>\<open>olderRecordsSkipped\<close>.
\<close>

theorem older_records_discarded:
  assumes "consistentOrder dateParse
             (map (freshnessOf metadataField) (ofIdentity idField metadataField key recs))"
  shows "mergedFor dateParse recs idField metadataField key =
           (if ofIdentity idField metadataField key recs = [] then None
            else Some (mergeGroupRecords
                   (map entriesOf (survivors dateParse idField metadataField key recs))))
       \<and> (\<forall>old \<in> set (ofIdentity idField metadataField key recs).
           \<forall>new \<in> set (ofIdentity idField metadataField key recs).
             0 < compareMetadata dateParse (freshnessOf metadataField new)
                   (freshnessOf metadataField old)
             \<longrightarrow> old \<notin> set (survivors dateParse idField metadataField key recs))
       \<and> map Some (fst (collapseRecords dateParse recs idField metadataField)) =
           map (mergedFor dateParse recs idField metadataField)
             (map fst (byId (collapseLoop dateParse idField metadataField recs)))
       \<and> olderRecordsSkipped (snd (collapseRecords dateParse recs idField metadataField))
           + usedRecords (snd (collapseRecords dateParse recs idField metadataField))
           = int (length (filter (usable idField metadataField) recs))"
proof -
  note g = collapseLoop_group [OF assms]
  have one: "mergedFor dateParse recs idField metadataField key =
           (if ofIdentity idField metadataField key recs = [] then None
            else Some (mergeGroupRecords
                   (map entriesOf (survivors dateParse idField metadataField key recs))))"
  proof (cases "survivors dateParse idField metadataField key recs")
    case Nil
    with g have "ofIdentity idField metadataField key recs = []" by auto
    with Nil g show ?thesis by (simp add: mergedFor_def)
  next
    case (Cons s ss)
    then have "ofIdentity idField metadataField key recs \<noteq> []"
      by (auto simp: survivors_def)
    with Cons g show ?thesis by (simp add: mergedFor_def)
  qed
  have two: "\<forall>old \<in> set (ofIdentity idField metadataField key recs).
           \<forall>new \<in> set (ofIdentity idField metadataField key recs).
             0 < compareMetadata dateParse (freshnessOf metadataField new)
                   (freshnessOf metadataField old)
             \<longrightarrow> old \<notin> set (survivors dateParse idField metadataField key recs)"
    by (auto simp: survivors_def isOlder_iff)
  from one two collapsed_mergedFor older_and_used show ?thesis
    by blast
qed

theorem older_records_discarded_witness:
  "mergedFor exampleDateParse [JObj olderRecord, JObj fresherRecord] ''id'' ''t'' ''a''
     = Some fresherRecord
   \<and> fst (collapseRecords exampleDateParse [JObj olderRecord, JObj fresherRecord] ''id'' ''t'')
     = [fresherRecord]
   \<and> olderRecordsSkipped
       (snd (collapseRecords exampleDateParse [JObj olderRecord, JObj fresherRecord] ''id'' ''t''))
     = 1"
proof -
  let ?recs = "[JObj olderRecord, JObj fresherRecord]"
  have c: "consistentOrder exampleDateParse
             (map (freshnessOf ''t'') (ofIdentity ''id'' ''t'' ''a'' ?recs))"
    by code_simp
  have v: "ofIdentity ''id'' ''t'' ''a'' ?recs \<noteq> []"
    "mergeGroupRecords (map entriesOf (survivors exampleDateParse ''id'' ''t'' ''a'' ?recs))
       = fresherRecord"
    "map fst (byId (collapseLoop exampleDateParse ''id'' ''t'' ?recs)) = [''a'']"
    "usedRecords (snd (collapseRecords exampleDateParse ?recs ''id'' ''t'')) = 1"
    "length (filter (usable ''id'' ''t'') ?recs) = 2"
    by code_simp+
  show ?thesis
    using older_records_discarded [OF c] v(1) unfolding v(2-5)
    by (clarsimp simp: map_eq_Cons_conv)
qed

text \<open>
  The claim as stated fails where the comparison is not transitive. The record of
  freshness \<^verbatim>\<open>10\<close> is strictly fresher than the one of freshness \<^verbatim>\<open>9\<close>, and the output
  is the latter: \<^verbatim>\<open>"5x"\<close> replaces \<^verbatim>\<open>10\<close> and is replaced by \<^verbatim>\<open>9\<close>, both as strings.
\<close>

theorem freshness_cycle_counterexample:
  "compareMetadata exampleDateParse (JNum 10) (JNum 9) = 1
   \<and> compareMetadata exampleDateParse (JStr ''5x'') (JNum 10) = 1
   \<and> compareMetadata exampleDateParse (JNum 9) (JStr ''5x'') = 1
   \<and> collapseRecords exampleDateParse [JObj cycleTen, JObj cycleFiveX, JObj cycleNine] ''id'' ''t''
     = ([cycleNine],
        \<lparr>totalRecords = 3, uniqueIds = 1, usedRecords = 1, mergedRecords = 0,
           missingId = 0, missingMetadata = 0, olderRecordsSkipped = 2\<rparr>)"
  by code_simp

section \<open>Where the comparison is consistent\<close>

lemma str_not_less_trans:
  "\<not> str_less a b \<Longrightarrow> \<not> str_less b c \<Longrightarrow> \<not> str_less a c"
  using str_less_total [of a b] str_less_total [of b c] str_less_trans str_less_asym
  by blast

lemma compareMetadata_ge_timestamps:
  assumes "toTimestamp dateParse a = Some x" "toTimestamp dateParse b = Some y"
  shows "0 \<le> compareMetadata dateParse a b \<longleftrightarrow>
           y < x \<or> (x = y \<and> \<not> str_less (toComparableString a) (toComparableString b))"
  using assms str_less_total [of "toComparableString a" "toComparableString b"]
        str_less_asym [of "toComparableString a" "toComparableString b"]
        str_less_irrefl [of "toComparableString a"]
  by (auto simp: compareMetadata_def)

lemma compareMetadata_ge_strings:
  assumes "toTimestamp dateParse a = None \<or> toTimestamp dateParse b = None"
  shows "0 \<le> compareMetadata dateParse a b \<longleftrightarrow>
           \<not> str_less (toComparableString a) (toComparableString b)"
  using assms str_less_total [of "toComparableString a" "toComparableString b"]
        str_less_asym [of "toComparableString a" "toComparableString b"]
        str_less_irrefl [of "toComparableString a"]
  by (auto simp: compareMetadata_def split: option.splits)

lemma consistentOrder_timestamps:
  assumes "\<forall>m \<in> set ms. toTimestamp dateParse m \<noteq> None"
  shows "consistentOrder dateParse ms"
  unfolding consistentOrder_def list_all_iff
proof (intro ballI impI)
  fix a b c
  assume "a \<in> set ms" "b \<in> set ms" "c \<in> set ms"
  with assms have "toTimestamp dateParse a \<noteq> None" "toTimestamp dateParse b \<noteq> None"
    "toTimestamp dateParse c \<noteq> None"
    by simp_all
  then obtain x y z where
    t: "toTimestamp dateParse a = Some x" "toTimestamp dateParse b = Some y"
       "toTimestamp dateParse c = Some z"
    by blast
  assume "0 \<le> compareMetadata dateParse a b \<and> 0 \<le> compareMetadata dateParse b c"
  then show "0 \<le> compareMetadata dateParse a c"
    unfolding compareMetadata_ge_timestamps [OF t(1,2)] compareMetadata_ge_timestamps [OF t(2,3)]
      compareMetadata_ge_timestamps [OF t(1,3)]
    using str_not_less_trans by auto
qed

lemma consistentOrder_no_timestamps:
  assumes "\<forall>m \<in> set ms. toTimestamp dateParse m = None"
  shows "consistentOrder dateParse ms"
  unfolding consistentOrder_def list_all_iff
proof (intro ballI impI)
  fix a b c
  assume "a \<in> set ms" "b \<in> set ms" "c \<in> set ms"
  with assms have
    t: "toTimestamp dateParse a = None" "toTimestamp dateParse b = None"
       "toTimestamp dateParse c = None"
    by auto
  assume "0 \<le> compareMetadata dateParse a b \<and> 0 \<le> compareMetadata dateParse b c"
  then show "0 \<le> compareMetadata dateParse a c"
    using t str_not_less_trans by (auto simp: compareMetadata_ge_strings)
qed

lemma consistentOrder_two: "consistentOrder dateParse [a, b]"
  using compareMetadata_refl [of dateParse a] compareMetadata_refl [of dateParse b]
  by (simp add: consistentOrder_def)

section \<open>Collapsing a collapsed output\<close>

subsection \<open>A merged value is merged into itself\<close>





subsection \<open>The shape of a merged record\<close>

















subsection \<open>The records of the groups\<close>



subsection \<open>Records of distinct identities\<close>







text \<open>
  Repository data is set apart in the amended claim: two repositories merged by URL lose
  their URL key, and the second collapse merges the result with a third one by \<^verbatim>\<open>id\<close>.
\<close>

lemma repositories_collapsed_twice:
  "fst (collapseRecords exampleDateParse [JObj sharedRepositories] ''id'' ''t'') =
     [[(''id'', JStr ''a''), (''t'', JStr ''T''),
       (''repositories'',
          JArr [JObj [(''url'', JArr [JStr ''u'', JStr '' u'']), (''id'', JStr ''i'')],
                JObj [(''id'', JStr ''i'')]])]]"
  "fst (collapseRecords exampleDateParse
          (map JObj (fst (collapseRecords exampleDateParse [JObj sharedRepositories] ''id'' ''t'')))
          ''id'' ''t'') =
     [[(''id'', JStr ''a''), (''t'', JStr ''T''),
       (''repositories'',
          JArr [JObj [(''url'', JArr [JStr ''u'', JStr '' u'']), (''id'', JStr ''i'')]])]]"
  by code_simp+

section \<open>The stable serialisation does not depend on the order of keys\<close>

lemma set_insertEntry: "set (insertEntry e xs) = insert e (set xs)"
  by (induction xs) auto

lemma set_sortEntries: "set (sortEntries xs) = set xs"
  by (induction xs) (simp_all add: sortEntries_def set_insertEntry)

lemma sorted_insertEntry:
  assumes "sorted_wrt (\<lambda>a b. str_less (fst a) (fst b)) xs" "fst e \<notin> fst ` set xs"
  shows "sorted_wrt (\<lambda>a b. str_less (fst a) (fst b)) (insertEntry e xs)"
  using assms
proof (induction xs)
  case Nil
  show ?case by simp
next
  case (Cons x xs)
  show ?case
  proof (cases "str_less (fst e) (fst x)")
    case True
    with Cons.prems(1) show ?thesis
      by (auto intro: str_less_trans)
  next
    case False
    with Cons.prems(2) have "str_less (fst x) (fst e)"
      using str_less_total [of "fst e" "fst x"] by auto
    with False Cons show ?thesis
      by (auto simp: set_insertEntry)
  qed
qed

lemma sorted_sortEntries:
  "distinct (map fst xs) \<Longrightarrow> sorted_wrt (\<lambda>a b. str_less (fst a) (fst b)) (sortEntries xs)"
proof (induction xs)
  case Nil
  show ?case by (simp add: sortEntries_def)
next
  case (Cons x xs)
  then have "sorted_wrt (\<lambda>a b. str_less (fst a) (fst b)) (sortEntries xs)"
    and "fst x \<notin> fst ` set (sortEntries xs)"
    by (simp_all add: set_sortEntries)
  then have "sorted_wrt (\<lambda>a b. str_less (fst a) (fst b)) (insertEntry x (sortEntries xs))"
    by (rule sorted_insertEntry)
  then show ?case by (simp add: sortEntries_def)
qed

lemma sorted_by_key_unique:
  assumes "sorted_wrt (\<lambda>a b. str_less (fst a) (fst b)) xs"
    and "sorted_wrt (\<lambda>a b. str_less (fst a) (fst b)) ys"
    and "set xs = set ys"
  shows "xs = ys"
  using assms
proof (induction xs arbitrary: ys)
  case Nil
  then show ?case by simp
next
  case (Cons x xs)
  from Cons.prems(3) obtain y ys' where ys: "ys = y # ys'"
    by (cases ys) auto
  have xy: "x = y"
  proof (rule ccontr)
    assume neq: "x \<noteq> y"
    with Cons.prems(3) ys have "x \<in> set ys'" "y \<in> set xs" by auto
    with Cons.prems(1,2) ys have "str_less (fst y) (fst x)" "str_less (fst x) (fst y)"
      by auto
    then show False using str_less_asym by blast
  qed
  have nx: "x \<notin> set xs" "y \<notin> set ys'"
    using Cons.prems(1,2) ys str_less_irrefl by auto
  with Cons.prems(3) ys xy have "set xs = set ys'" by auto
  with Cons.IH [of ys'] Cons.prems(1,2) ys have "xs = ys'" by simp
  with xy ys show ?case by simp
qed

lemma sortEntries_set:
  assumes "distinct (map fst xs)" "distinct (map fst ys)" "set xs = set ys"
  shows "sortEntries xs = sortEntries ys"
  by (rule sorted_by_key_unique)
     (simp_all add: sorted_sortEntries assms set_sortEntries)

lemma stableStringify_key_order:
  assumes "distinct (map fst es)" "distinct (map fst es')" "set es = set es'"
  shows "stableStringify (JObj es) = stableStringify (JObj es')"
proof -
  let ?f = "\<lambda>e. (fst e, stableStringify (snd e))"
  have "sortEntries (map ?f es) = sortEntries (map ?f es')"
    using assms by (intro sortEntries_set) (simp_all add: comp_def)
  then show ?thesis by simp
qed

end
